theory Spec2Isabelle
  imports Main
begin

chapter \<open>The reterm component tree engine\<close>

text \<open>
  A shallow embedding of the engine of \<^verbatim>\<open>reterm\<close>: the event emitter
  (\<^verbatim>\<open>events.py\<close>), the observable state container and its registry
  (\<^verbatim>\<open>state.py\<close>), the component tree (\<^verbatim>\<open>component.py\<close>) and the
  container with its layout (\<^verbatim>\<open>container.py\<close>).

  Python objects are mutable and shared, so the component tree is modelled over an explicit
  store of components addressed by references; every method takes the store and returns the
  new one. Exceptions are values. Recursion that follows references of the store takes a
  fuel argument: running out of fuel (\<open>None\<close>) stands for Python's unbounded recursion or
  a loop that never ends.
\<close>

section \<open>Exceptions\<close>

datatype py_error = ValueError string | KeyError string

section \<open>Observable state (\<^verbatim>\<open>state.py\<close>, class \<^verbatim>\<open>State\<close>)\<close>

text \<open>
  A stored value is a Python object or \<^verbatim>\<open>None\<close>: \<open>'v option\<close>, with \<open>None\<close> for
  Python's \<^verbatim>\<open>None\<close>. Python's \<^verbatim>\<open>!=\<close> on values is HOL's inequality on \<open>'v option\<close>.
  The two dictionaries of a \<^verbatim>\<open>State\<close> are maps from keys to stored values.
\<close>

record 'v State =
  state :: "string \<rightharpoonup> 'v option"
  previous_state :: "string \<rightharpoonup> 'v option"

text \<open>\<^verbatim>\<open>State.__init__\<close>: \<^verbatim>\<open>self._state = initial_state or {}\<close>, no previous values.\<close>

definition State_init :: "(string \<rightharpoonup> 'v option) option \<Rightarrow> 'v State" where
  "State_init initial_state =
     \<lparr> state = (case initial_state of None \<Rightarrow> Map.empty | Some d \<Rightarrow> d),
       previous_state = Map.empty \<rparr>"

text \<open>\<^verbatim>\<open>dict.get(key, default)\<close>.\<close>

definition dict_get :: "(string \<rightharpoonup> 'v option) \<Rightarrow> string \<Rightarrow> 'v option \<Rightarrow> 'v option" where
  "dict_get d key dflt = (case d key of None \<Rightarrow> dflt | Some v \<Rightarrow> v)"

definition State_get :: "'v State \<Rightarrow> string \<Rightarrow> 'v option \<Rightarrow> 'v option" where
  "State_get s key dflt = dict_get (state s) key dflt"

definition State_get_previous :: "'v State \<Rightarrow> string \<Rightarrow> 'v option \<Rightarrow> 'v option" where
  "State_get_previous s key dflt = dict_get (previous_state s) key dflt"

text \<open>
  A call \<^verbatim>\<open>self.emit(name, **kwargs)\<close> made by a \<^verbatim>\<open>State\<close> is recorded as the pair
  of the event name and the keyword arguments, in the order written in the source. The
  keyword arguments of the two notifications carry a key, a stored value, the list of changed
  keys, or the whole \<^verbatim>\<open>updates\<close> dictionary (its items in iteration order).
\<close>

datatype 'v kwarg =
    KStr string
  | KVal "'v option"
  | KKeys "string list"
  | KUpdates "(string \<times> 'v option) list"

type_synonym 'v emission = "string \<times> (string \<times> 'v kwarg) list"

definition STATE_CHANGE :: string where
  "STATE_CHANGE = ''state_change''"

definition State_set :: "'v State \<Rightarrow> string \<Rightarrow> 'v option \<Rightarrow> 'v State \<times> 'v emission list" where
  "State_set s key v =
     (let old_value = dict_get (state s) key None in
      if old_value \<noteq> v then
        (s\<lparr> previous_state := (previous_state s)(key \<mapsto> old_value),
            state := (state s)(key \<mapsto> v) \<rparr>,
         [(STATE_CHANGE, [(''key'', KStr key), (''value'', KVal v), (''old_value'', KVal old_value)])])
      else (s, []))"

text \<open>
  The loop of \<^verbatim>\<open>State.update\<close> over \<^verbatim>\<open>updates.items()\<close>, with the list
  \<^verbatim>\<open>changed_keys\<close> as accumulator.
\<close>

fun update_items :: "(string \<times> 'v option) list \<Rightarrow> 'v State \<Rightarrow> string list \<Rightarrow> 'v State \<times> string list" where
  "update_items [] s changed_keys = (s, changed_keys)"
| "update_items ((key, v) # items) s changed_keys =
     (let old_value = dict_get (state s) key None in
      if old_value \<noteq> v then
        update_items items
          (s\<lparr> previous_state := (previous_state s)(key \<mapsto> old_value),
              state := (state s)(key \<mapsto> v) \<rparr>)
          (changed_keys @ [key])
      else update_items items s changed_keys)"

definition State_update :: "'v State \<Rightarrow> (string \<times> 'v option) list \<Rightarrow> 'v State \<times> 'v emission list" where
  "State_update s updates =
     (case update_items updates s [] of (s', changed_keys) \<Rightarrow>
        if changed_keys \<noteq> [] then
          (s', [(STATE_CHANGE, [(''keys'', KKeys changed_keys), (''updates'', KUpdates updates)])])
        else (s', []))"

section \<open>The named-state registry (\<^verbatim>\<open>state.py\<close>, class \<^verbatim>\<open>StateManager\<close>)\<close>

text \<open>
  The one instance is a Python object whose attributes live in its dictionary, a map from
  attribute names to attribute values. Inside the body of class \<^verbatim>\<open>StateManager\<close> the
  identifier \<^verbatim>\<open>__initialized\<close> is rewritten by Python to
  \<^verbatim>\<open>_StateManager__initialized\<close>; a string literal is not rewritten.
\<close>

datatype 'v attr = ABool bool | AStates "string \<rightharpoonup> 'v State"

type_synonym 'v instance_dict = "string \<rightharpoonup> 'v attr"

definition mangled :: "string \<Rightarrow> string \<Rightarrow> string" where
  "mangled cls ident = ''_'' @ cls @ ident"

definition hasattr :: "'v instance_dict \<Rightarrow> string \<Rightarrow> bool" where
  "hasattr obj attr_name = (obj attr_name \<noteq> None)"

text \<open>The class attribute \<^verbatim>\<open>StateManager._instance\<close>: \<open>None\<close> until the first acquisition.\<close>

type_synonym 'v StateManager_class = "'v instance_dict option"

text \<open>
  \<^verbatim>\<open>__new__\<close> creates the instance once and sets \<^verbatim>\<open>cls._instance.__initialized = False\<close>
  (the rewritten name); later calls return the same instance.
\<close>

definition StateManager_new :: "'v StateManager_class \<Rightarrow> 'v instance_dict" where
  "StateManager_new cls_instance =
     (case cls_instance of
        None \<Rightarrow> Map.empty(mangled ''StateManager'' ''__initialized'' \<mapsto> ABool False)
      | Some obj \<Rightarrow> obj)"

text \<open>
  \<^verbatim>\<open>__init__\<close>: the test \<^verbatim>\<open>not hasattr(self, "__initialized") or not self.__initialized\<close>
  looks the literal name up first; \<^verbatim>\<open>or\<close> evaluates its second operand only when the
  first is false.
\<close>

definition StateManager_init :: "'v instance_dict \<Rightarrow> 'v instance_dict" where
  "StateManager_init self =
     (if (if \<not> hasattr self ''__initialized'' then True
          else self (mangled ''StateManager'' ''__initialized'') \<noteq> Some (ABool True))
      then self(''_states'' \<mapsto> AStates Map.empty,
                mangled ''StateManager'' ''__initialized'' \<mapsto> ABool True)
      else self)"

text \<open>An acquisition \<^verbatim>\<open>StateManager()\<close> runs \<^verbatim>\<open>__new__\<close>, then \<^verbatim>\<open>__init__\<close> on its result.\<close>

definition StateManager_acquire :: "'v StateManager_class \<Rightarrow> 'v StateManager_class" where
  "StateManager_acquire cls_instance = Some (StateManager_init (StateManager_new cls_instance))"

definition states_of :: "'v instance_dict \<Rightarrow> (string \<rightharpoonup> 'v State)" where
  "states_of self = (case self ''_states'' of Some (AStates m) \<Rightarrow> m | _ \<Rightarrow> Map.empty)"

definition create_state ::
  "'v instance_dict \<Rightarrow> string \<Rightarrow> (string \<rightharpoonup> 'v option) option \<Rightarrow> py_error + ('v State \<times> 'v instance_dict)" where
  "create_state self nm initial_state =
     (if nm \<in> dom (states_of self) then Inl (ValueError nm)
      else let st = State_init initial_state
           in Inr (st, self(''_states'' \<mapsto> AStates ((states_of self)(nm \<mapsto> st)))))"

definition get_state :: "'v instance_dict \<Rightarrow> string \<Rightarrow> py_error + 'v State" where
  "get_state self nm =
     (case states_of self nm of None \<Rightarrow> Inl (KeyError nm) | Some st \<Rightarrow> Inr st)"

section \<open>The event emitter (\<^verbatim>\<open>events.py\<close>, class \<^verbatim>\<open>EventEmitter\<close>)\<close>

text \<open>
  The emitter keeps its handlers twice: in its own dictionary \<^verbatim>\<open>_event_handlers\<close> and in
  the signals of the external signal library, one signal per event name in \<^verbatim>\<open>_signals\<close>.
  The library is not part of the repository, so its three operations are parameters: a record
  of functions over the library's own state \<open>'w\<close>. Handlers \<open>'h\<close> and signals \<open>'sg\<close> are
  opaque. \<^verbatim>\<open>send\<close> has the signature of the library's call
  \<^verbatim>\<open>signal.send(sender, **kwargs)\<close>: a sender and keyword arguments.
\<close>

record ('h, 'sg) EventEmitter =
  event_handlers :: "string \<rightharpoonup> 'h list"
  signals :: "string \<rightharpoonup> 'sg"

record ('h, 'sg, 'kw, 'w) signal_library =
  signal :: "string \<Rightarrow> 'w \<Rightarrow> 'sg \<times> 'w"
  connect :: "'sg \<Rightarrow> 'h \<Rightarrow> 'w \<Rightarrow> 'w"
  send :: "'sg \<Rightarrow> ('h, 'sg) EventEmitter \<Rightarrow> 'kw \<Rightarrow> 'w \<Rightarrow> 'w"

definition EventEmitter_init :: "('h, 'sg) EventEmitter" where
  "EventEmitter_init = \<lparr> event_handlers = Map.empty, signals = Map.empty \<rparr>"

definition EventEmitter_on ::
  "('h, 'sg, 'kw, 'w) signal_library \<Rightarrow> ('h, 'sg) EventEmitter \<Rightarrow> string \<Rightarrow> 'h \<Rightarrow> 'w
     \<Rightarrow> ('h, 'sg) EventEmitter \<times> 'w" where
  "EventEmitter_on lib self event_name handler w =
     (let (sg, w1) = (case signals self event_name of
                        None \<Rightarrow> signal lib event_name w
                      | Some sg \<Rightarrow> (sg, w));
          self1 = self\<lparr> signals := (signals self)(event_name \<mapsto> sg) \<rparr>;
          w2 = connect lib sg handler w1;
          hs = (case event_handlers self1 event_name of None \<Rightarrow> [] | Some hs \<Rightarrow> hs)
      in (self1\<lparr> event_handlers := (event_handlers self1)(event_name \<mapsto> hs @ [handler]) \<rparr>, w2))"

text \<open>
  \<^verbatim>\<open>emit(self, event_name, *args, **kwargs)\<close>: the positional payload \<open>args\<close> and the
  keyword payload \<open>kwargs\<close> are both parameters; the body is
  \<^verbatim>\<open>if event_name in self._signals: self._signals[event_name].send(self, **kwargs)\<close>.
\<close>

definition EventEmitter_emit ::
  "('h, 'sg, 'kw, 'w) signal_library \<Rightarrow> ('h, 'sg) EventEmitter \<Rightarrow> string \<Rightarrow> 'a list \<Rightarrow> 'kw \<Rightarrow> 'w \<Rightarrow> 'w" where
  "EventEmitter_emit lib self event_name args kwargs w =
     (case signals self event_name of
        None \<Rightarrow> w
      | Some sg \<Rightarrow> send lib sg self kwargs w)"

section \<open>Components (\<^verbatim>\<open>component.py\<close>, \<^verbatim>\<open>container.py\<close>)\<close>

subsection \<open>The store of components\<close>

text \<open>
  A reference names one Python object. The store gives every reference its component; a
  reference that no constructor call has returned yet holds some component nobody refers to.
  Object identity (\<^verbatim>\<open>child not in self._children\<close>, where \<^verbatim>\<open>Component\<close> defines no
  \<^verbatim>\<open>__eq__\<close>) is equality of references.

  One record holds the attributes of \<^verbatim>\<open>Component\<close> and the two attributes that
  \<^verbatim>\<open>Container\<close> adds; \<open>cls\<close> says which of the two classes the object belongs to, for
  the methods that \<^verbatim>\<open>Container\<close> overrides. A subclass written by an application
  overrides \<^verbatim>\<open>handle_event\<close> in the way the examples of the repository do
  (\<^verbatim>\<open>if event_name == "click": ...; return True\<close>, otherwise
  \<^verbatim>\<open>return super().handle_event(...)\<close>): \<open>intercepts\<close> lists the event names such an
  override consumes, and is empty for the two classes of the framework. The attributes
  \<^verbatim>\<open>props\<close> and \<^verbatim>\<open>state\<close> are left out: no method modelled here reads them, apart
  from \<^verbatim>\<open>props.get("name")\<close>, which the constructor stores as \<^verbatim>\<open>name\<close>.
\<close>

type_synonym ref = nat

datatype ComponentState = CREATED | MOUNTED | UPDATED | UNMOUNTED

datatype klass = ComponentCls | ContainerCls

record component =
  comp_id :: "string option"
  comp_name :: "string option"
  lifecycle_state :: ComponentState
  parent :: "ref option"
  children :: "ref list"
  is_mounted :: bool
  is_visible :: bool
  position :: "int \<times> int"
  size_hw :: "int \<times> int"
  layout_direction :: string
  layout_spacing :: int
  cls :: klass
  intercepts :: "string list"

type_synonym heap = "ref \<Rightarrow> component"

text \<open>
  A call \<^verbatim>\<open>self.emit(name, ...)\<close> made by a component is recorded as \<open>Emit self name\<close>,
  in the order the calls are made; what the emitter does with it is the business of
  \<^verbatim>\<open>EventEmitter\<close>, and handlers are taken not to touch the tree. \<open>Consumed r name\<close>
  records that the override of a subclass consumed the event at \<open>r\<close>.
\<close>

datatype effect = Emit ref string | Consumed ref string

definition MOUNT :: string where "MOUNT = ''mount''"
definition UNMOUNT :: string where "UNMOUNT = ''unmount''"
definition UPDATE :: string where "UPDATE = ''update''"
definition RENDER :: string where "RENDER = ''render''"

text \<open>
  The constructors: \<^verbatim>\<open>Component(id, props)\<close> and \<^verbatim>\<open>Container(id, props)\<close>, with
  \<^verbatim>\<open>name = props.get("name")\<close>. (The \<^verbatim>\<open>emit(Events.INIT)\<close> of the constructor
  reaches no handler: none can be registered before the object exists.)
\<close>

definition Component_init :: "string option \<Rightarrow> string option \<Rightarrow> component" where
  "Component_init ident nm =
     \<lparr> comp_id = ident, comp_name = nm, lifecycle_state = CREATED, parent = None,
       children = [], is_mounted = False, is_visible = True, position = (0, 0),
       size_hw = (0, 0), layout_direction = ''vertical'', layout_spacing = 0,
       cls = ComponentCls, intercepts = [] \<rparr>"

definition Container_init :: "string option \<Rightarrow> string option \<Rightarrow> component" where
  "Container_init ident nm = (Component_init ident nm)\<lparr> cls := ContainerCls \<rparr>"

subsection \<open>Walking the tree: \<^verbatim>\<open>root\<close>, \<^verbatim>\<open>find_by_id\<close>, \<^verbatim>\<open>_get_all_descendants\<close>\<close>

text \<open>The \<^verbatim>\<open>while current._parent is not None\<close> loop of the property \<^verbatim>\<open>root\<close>.\<close>

fun root :: "nat \<Rightarrow> heap \<Rightarrow> ref \<Rightarrow> ref option" where
  "root 0 h current = None"
| "root (Suc n) h current =
     (case parent (h current) of None \<Rightarrow> Some current | Some p \<Rightarrow> root n h p)"

text \<open>
  The loop of \<^verbatim>\<open>find_by_id\<close> over the children: the first child whose search finds a
  component ends the loop. The outer \<open>option\<close> is the fuel, the inner one Python's
  \<^verbatim>\<open>Optional[Component]\<close>.
\<close>

fun first_found :: "(ref \<Rightarrow> ref option option) \<Rightarrow> ref list \<Rightarrow> ref option option" where
  "first_found search [] = Some None"
| "first_found search (child # rest) =
     (case search child of
        None \<Rightarrow> None
      | Some None \<Rightarrow> first_found search rest
      | Some (Some found) \<Rightarrow> Some (Some found))"

fun find_by_id :: "nat \<Rightarrow> heap \<Rightarrow> ref \<Rightarrow> string \<Rightarrow> ref option option" where
  "find_by_id 0 h self ident = None"
| "find_by_id (Suc n) h self ident =
     (if comp_id (h self) = Some ident then Some (Some self)
      else first_found (\<lambda>child. find_by_id n h child ident) (children (h self)))"

fun collect :: "(ref \<Rightarrow> ref list option) \<Rightarrow> ref list \<Rightarrow> ref list option" where
  "collect below [] = Some []"
| "collect below (child # rest) =
     (case below child of
        None \<Rightarrow> None
      | Some ds \<Rightarrow> (case collect below rest of None \<Rightarrow> None | Some others \<Rightarrow> Some (child # ds @ others)))"

fun get_all_descendants :: "nat \<Rightarrow> heap \<Rightarrow> ref \<Rightarrow> ref list option" where
  "get_all_descendants 0 h self = None"
| "get_all_descendants (Suc n) h self =
     collect (\<lambda>child. get_all_descendants n h child) (children (h self))"

subsection \<open>Lifecycle: \<^verbatim>\<open>mount\<close>, \<^verbatim>\<open>unmount\<close>, \<^verbatim>\<open>render\<close>, \<^verbatim>\<open>update\<close>\<close>

text \<open>A \<^verbatim>\<open>for\<close> loop that calls a method on each element, threading the store and the effects.\<close>

fun for_each ::
  "(ref \<Rightarrow> heap \<Rightarrow> (heap \<times> effect list) option) \<Rightarrow> ref list \<Rightarrow> heap \<times> effect list
     \<Rightarrow> (heap \<times> effect list) option" where
  "for_each body [] acc = Some acc"
| "for_each body (x # xs) (h, t) =
     (case body x h of None \<Rightarrow> None | Some (h', t') \<Rightarrow> for_each body xs (h', t @ t'))"

fun mount :: "nat \<Rightarrow> ref \<Rightarrow> heap \<Rightarrow> (heap \<times> effect list) option" where
  "mount 0 self h = None"
| "mount (Suc n) self h =
     (if \<not> is_mounted (h self) then
        for_each (\<lambda>child. mount n child) (children (h self))
          (h(self := (h self)\<lparr> is_mounted := True, lifecycle_state := MOUNTED \<rparr>), [Emit self MOUNT])
      else Some (h, []))"

fun unmount :: "nat \<Rightarrow> ref \<Rightarrow> heap \<Rightarrow> (heap \<times> effect list) option" where
  "unmount 0 self h = None"
| "unmount (Suc n) self h =
     (if is_mounted (h self) then
        (case for_each (\<lambda>child. unmount n child) (children (h self)) (h, []) of
           None \<Rightarrow> None
         | Some (h1, t1) \<Rightarrow>
             Some (h1(self := (h1 self)\<lparr> is_mounted := False, lifecycle_state := UNMOUNTED \<rparr>),
                   t1 @ [Emit self UNMOUNT]))
      else Some (h, []))"

text \<open>
  \<^verbatim>\<open>render\<close> changes nothing in the tree. \<^verbatim>\<open>Component.render\<close> emits;
  \<^verbatim>\<open>Container.render\<close> does the same and then renders each visible child, in order.
\<close>

fun render_all :: "(ref \<Rightarrow> effect list option) \<Rightarrow> ref list \<Rightarrow> effect list option" where
  "render_all rend [] = Some []"
| "render_all rend (child # rest) =
     (case rend child of
        None \<Rightarrow> None
      | Some t \<Rightarrow> (case render_all rend rest of None \<Rightarrow> None | Some t' \<Rightarrow> Some (t @ t')))"

fun render :: "nat \<Rightarrow> heap \<Rightarrow> ref \<Rightarrow> effect list option" where
  "render 0 h self = None"
| "render (Suc n) h self =
     (case cls (h self) of
        ComponentCls \<Rightarrow> Some [Emit self RENDER]
      | ContainerCls \<Rightarrow>
          (case render_all (\<lambda>child. render n h child)
                  (filter (\<lambda>child. is_visible (h child)) (children (h self))) of
             None \<Rightarrow> None
           | Some t \<Rightarrow> Some (Emit self RENDER # t)))"

text \<open>\<^verbatim>\<open>Component.update\<close>; its \<^verbatim>\<open>self.render()\<close> is the render of the object's class.\<close>

definition Component_update :: "nat \<Rightarrow> ref \<Rightarrow> heap \<Rightarrow> (heap \<times> effect list) option" where
  "Component_update n self h =
     (if is_mounted (h self) then
        (let h1 = h(self := (h self)\<lparr> lifecycle_state := UPDATED \<rparr>) in
         case render n h1 self of None \<Rightarrow> None | Some t \<Rightarrow> Some (h1, Emit self UPDATE # t))
      else Some (h, []))"

text \<open>
  The setters of \<^verbatim>\<open>position\<close> and \<^verbatim>\<open>size\<close> call \<^verbatim>\<open>self.update()\<close>, the update of
  the object's class, and \<^verbatim>\<open>Container.update\<close> calls \<^verbatim>\<open>calculate_layout\<close>, which
  calls the setters of the children. The setters and the layout therefore take the update to
  call as the parameter \<open>upd\<close>; \<open>update\<close> below closes the recursion.
\<close>

definition set_position_with ::
  "(ref \<Rightarrow> heap \<Rightarrow> (heap \<times> effect list) option) \<Rightarrow> ref \<Rightarrow> int \<times> int \<Rightarrow> heap
     \<Rightarrow> (heap \<times> effect list) option" where
  "set_position_with upd self v h =
     (let h1 = h(self := (h self)\<lparr> position := v \<rparr>) in
      if is_mounted (h1 self) then upd self h1 else Some (h1, []))"

definition set_size_with ::
  "(ref \<Rightarrow> heap \<Rightarrow> (heap \<times> effect list) option) \<Rightarrow> ref \<Rightarrow> int \<times> int \<Rightarrow> heap
     \<Rightarrow> (heap \<times> effect list) option" where
  "set_size_with upd self v h =
     (let h1 = h(self := (h self)\<lparr> size_hw := v \<rparr>) in
      if is_mounted (h1 self) then upd self h1 else Some (h1, []))"

definition set_visible_with ::
  "(ref \<Rightarrow> heap \<Rightarrow> (heap \<times> effect list) option) \<Rightarrow> ref \<Rightarrow> bool \<Rightarrow> heap
     \<Rightarrow> (heap \<times> effect list) option" where
  "set_visible_with upd self v h =
     (if is_visible (h self) \<noteq> v then
        (let h1 = h(self := (h self)\<lparr> is_visible := v \<rparr>) in
         if is_mounted (h1 self) then upd self h1 else Some (h1, []))
      else Some (h, []))"

text \<open>
  The two loops of \<^verbatim>\<open>calculate_layout\<close> over the visible children; \<open>current\<close> is
  \<^verbatim>\<open>current_y\<close> (respectively \<^verbatim>\<open>current_x\<close>), and \<^verbatim>\<open>self._layout_spacing\<close> is read
  in every round.
\<close>

fun layout_vertical ::
  "(ref \<Rightarrow> heap \<Rightarrow> (heap \<times> effect list) option) \<Rightarrow> ref \<Rightarrow> ref list \<Rightarrow> int \<Rightarrow> int \<Rightarrow> int \<Rightarrow> int
     \<Rightarrow> heap \<times> effect list \<Rightarrow> (heap \<times> effect list) option" where
  "layout_vertical upd self [] start_x container_width height_per_child current acc = Some acc"
| "layout_vertical upd self (child # rest) start_x container_width height_per_child current (h, t) =
     (case set_position_with upd child (current, start_x) h of
        None \<Rightarrow> None
      | Some (h1, t1) \<Rightarrow>
          (case set_size_with upd child (height_per_child, container_width) h1 of
             None \<Rightarrow> None
           | Some (h2, t2) \<Rightarrow>
               layout_vertical upd self rest start_x container_width height_per_child
                 (current + height_per_child + layout_spacing (h2 self)) (h2, t @ t1 @ t2)))"

fun layout_horizontal ::
  "(ref \<Rightarrow> heap \<Rightarrow> (heap \<times> effect list) option) \<Rightarrow> ref \<Rightarrow> ref list \<Rightarrow> int \<Rightarrow> int \<Rightarrow> int \<Rightarrow> int
     \<Rightarrow> heap \<times> effect list \<Rightarrow> (heap \<times> effect list) option" where
  "layout_horizontal upd self [] start_y container_height width_per_child current acc = Some acc"
| "layout_horizontal upd self (child # rest) start_y container_height width_per_child current (h, t) =
     (case set_position_with upd child (start_y, current) h of
        None \<Rightarrow> None
      | Some (h1, t1) \<Rightarrow>
          (case set_size_with upd child (container_height, width_per_child) h1 of
             None \<Rightarrow> None
           | Some (h2, t2) \<Rightarrow>
               layout_horizontal upd self rest start_y container_height width_per_child
                 (current + width_per_child + layout_spacing (h2 self)) (h2, t @ t1 @ t2)))"

definition calculate_layout_with ::
  "(ref \<Rightarrow> heap \<Rightarrow> (heap \<times> effect list) option) \<Rightarrow> ref \<Rightarrow> heap \<Rightarrow> (heap \<times> effect list) option" where
  "calculate_layout_with upd self h =
     (if children (h self) = [] then Some (h, [])
      else
        (case (size_hw (h self), position (h self)) of
           ((container_height, container_width), (start_y, start_x)) \<Rightarrow>
             (let visible_children = filter (\<lambda>child. is_visible (h child)) (children (h self)) in
              if visible_children = [] then Some (h, [])
              else if layout_direction (h self) = ''vertical'' then
                (let total_spacing = layout_spacing (h self) * (int (length visible_children) - 1);
                     available_height = max 0 (container_height - total_spacing);
                     height_per_child = available_height div int (length visible_children)
                 in layout_vertical upd self visible_children start_x container_width
                      height_per_child start_y (h, []))
              else
                (let total_spacing = layout_spacing (h self) * (int (length visible_children) - 1);
                     available_width = max 0 (container_width - total_spacing);
                     width_per_child = available_width div int (length visible_children)
                 in layout_horizontal upd self visible_children start_y container_height
                      width_per_child start_x (h, [])))))"

text \<open>
  \<^verbatim>\<open>self.update()\<close>: \<^verbatim>\<open>Component.update\<close> for a component, and for a container
  \<^verbatim>\<open>Container.update\<close>, which runs \<^verbatim>\<open>super().update()\<close> and then
  \<^verbatim>\<open>self.calculate_layout()\<close>, mounted or not.
\<close>

fun update :: "nat \<Rightarrow> ref \<Rightarrow> heap \<Rightarrow> (heap \<times> effect list) option" where
  "update 0 self h = None"
| "update (Suc n) self h =
     (case Component_update n self h of
        None \<Rightarrow> None
      | Some (h1, t1) \<Rightarrow>
          (case cls (h self) of
             ComponentCls \<Rightarrow> Some (h1, t1)
           | ContainerCls \<Rightarrow>
               (case calculate_layout_with (\<lambda>child. update n child) self h1 of
                  None \<Rightarrow> None
                | Some (h2, t2) \<Rightarrow> Some (h2, t1 @ t2))))"

definition set_position :: "nat \<Rightarrow> ref \<Rightarrow> int \<times> int \<Rightarrow> heap \<Rightarrow> (heap \<times> effect list) option" where
  "set_position n = set_position_with (update n)"

definition set_size :: "nat \<Rightarrow> ref \<Rightarrow> int \<times> int \<Rightarrow> heap \<Rightarrow> (heap \<times> effect list) option" where
  "set_size n = set_size_with (update n)"

definition set_visible :: "nat \<Rightarrow> ref \<Rightarrow> bool \<Rightarrow> heap \<Rightarrow> (heap \<times> effect list) option" where
  "set_visible n = set_visible_with (update n)"

definition calculate_layout :: "nat \<Rightarrow> ref \<Rightarrow> heap \<Rightarrow> (heap \<times> effect list) option" where
  "calculate_layout n = calculate_layout_with (update n)"

subsection \<open>\<^verbatim>\<open>add_child\<close>\<close>

text \<open>
  The three lines \<^verbatim>\<open>root = self.root; existing = root.find_by_id(i);
  if existing is not None: raise\<close>, which \<^verbatim>\<open>add_child\<close> runs for the child and for each
  descendant: the result says whether the identifier exists in the tree of \<open>self\<close>.
\<close>

definition id_in_tree :: "nat \<Rightarrow> heap \<Rightarrow> ref \<Rightarrow> string \<Rightarrow> bool option" where
  "id_in_tree n h self ident =
     (case root n h self of
        None \<Rightarrow> None
      | Some rt \<Rightarrow>
          (case find_by_id n h rt ident of None \<Rightarrow> None | Some existing \<Rightarrow> Some (existing \<noteq> None)))"

text \<open>The loop over the descendants of the child: the first identifier found in the tree raises.\<close>

fun check_descendants :: "nat \<Rightarrow> heap \<Rightarrow> ref \<Rightarrow> ref list \<Rightarrow> py_error option option" where
  "check_descendants n h self [] = Some None"
| "check_descendants n h self (descendant # rest) =
     (case comp_id (h descendant) of
        None \<Rightarrow> check_descendants n h self rest
      | Some ident \<Rightarrow>
          (case id_in_tree n h self ident of
             None \<Rightarrow> None
           | Some True \<Rightarrow> Some (Some (ValueError ident))
           | Some False \<Rightarrow> check_descendants n h self rest))"

text \<open>
  \<^verbatim>\<open>add_child\<close> returns the store, the effects and the exception raised, if any
  (\<open>None\<close>: the call returned normally).
\<close>

definition add_child ::
  "nat \<Rightarrow> ref \<Rightarrow> ref \<Rightarrow> heap \<Rightarrow> (heap \<times> effect list \<times> py_error option) option" where
  "add_child n self child h =
     (if child \<in> set (children (h self)) then Some (h, [], None)
      else if comp_name (h child) \<noteq> None
              \<and> list_ex (\<lambda>existing_child. comp_name (h existing_child) = comp_name (h child))
                   (children (h self))
        then Some (h, [], Some (ValueError (the (comp_name (h child)))))
      else
        (case (case comp_id (h child) of None \<Rightarrow> Some False
               | Some ident \<Rightarrow> id_in_tree n h self ident) of
           None \<Rightarrow> None
         | Some True \<Rightarrow> Some (h, [], Some (ValueError (the (comp_id (h child)))))
         | Some False \<Rightarrow>
             (case get_all_descendants n h child of
                None \<Rightarrow> None
              | Some descendants \<Rightarrow>
                  (case check_descendants n h self descendants of
                     None \<Rightarrow> None
                   | Some (Some e) \<Rightarrow> Some (h, [], Some e)
                   | Some None \<Rightarrow>
                       (let h1 = h(self := (h self)\<lparr> children := children (h self) @ [child] \<rparr>);
                            h2 = h1(child := (h1 child)\<lparr> parent := Some self \<rparr>)
                        in if is_mounted (h2 self) then
                             (case mount n child h2 of
                                None \<Rightarrow> None
                              | Some (h3, t) \<Rightarrow> Some (h3, t, None))
                           else Some (h2, [], None))))))"

subsection \<open>\<^verbatim>\<open>handle_event\<close>\<close>

text \<open>\<^verbatim>\<open>Component.handle_event\<close>: emit the event on the component, report it unhandled.\<close>

definition Component_handle_event :: "ref \<Rightarrow> string \<Rightarrow> bool \<times> effect list" where
  "Component_handle_event self event_name = (False, [Emit self event_name])"

text \<open>
  The loop of \<^verbatim>\<open>Container.handle_event\<close> over \<^verbatim>\<open>reversed(self._children)\<close>, with
  the test \<^verbatim>\<open>child.visible and child.handle_event(...)\<close>: \<open>offer child\<close> is the call
  \<^verbatim>\<open>child.handle_event(event_name, ...)\<close>.
\<close>

fun propagate ::
  "heap \<Rightarrow> (ref \<Rightarrow> (bool \<times> effect list) option) \<Rightarrow> ref list \<Rightarrow> (bool \<times> effect list) option" where
  "propagate h offer [] = Some (False, [])"
| "propagate h offer (child # rest) =
     (if is_visible (h child) then
        (case offer child of
           None \<Rightarrow> None
         | Some (handled, t) \<Rightarrow>
             if handled then Some (True, t)
             else (case propagate h offer rest of None \<Rightarrow> None | Some (b, t') \<Rightarrow> Some (b, t @ t')))
      else propagate h offer rest)"

definition Container_handle_event_with ::
  "(ref \<Rightarrow> (bool \<times> effect list) option) \<Rightarrow> heap \<Rightarrow> ref \<Rightarrow> string \<Rightarrow> (bool \<times> effect list) option" where
  "Container_handle_event_with offer h self event_name =
     (case Component_handle_event self event_name of
        (handled, t) \<Rightarrow>
          if handled then Some (True, t)
          else (case propagate h offer (rev (children (h self))) of
                  None \<Rightarrow> None
                | Some (b, t') \<Rightarrow> Some (b, t @ t')))"

text \<open>
  \<^verbatim>\<open>obj.handle_event(...)\<close> on an object of the store: the override of an application's
  subclass first, then the method of the object's framework class.
\<close>

fun handle_event :: "nat \<Rightarrow> heap \<Rightarrow> ref \<Rightarrow> string \<Rightarrow> (bool \<times> effect list) option" where
  "handle_event 0 h self event_name = None"
| "handle_event (Suc n) h self event_name =
     (if event_name \<in> set (intercepts (h self)) then Some (True, [Consumed self event_name])
      else
        (case cls (h self) of
           ComponentCls \<Rightarrow> Some (Component_handle_event self event_name)
         | ContainerCls \<Rightarrow>
             Container_handle_event_with (\<lambda>child. handle_event n h child event_name) h self event_name))"

definition Container_handle_event :: "nat \<Rightarrow> heap \<Rightarrow> ref \<Rightarrow> string \<Rightarrow> (bool \<times> effect list) option" where
  "Container_handle_event n h self event_name =
     Container_handle_event_with (\<lambda>child. handle_event n h child event_name) h self event_name"

section \<open>Example objects\<close>

text \<open>Concrete states, registries and stores on which the theorems below are exercised.\<close>

definition demo_state :: "int State" where
  "demo_state = State_init (Some [''a'' \<mapsto> Some 1])"

definition first_registry :: "int instance_dict" where
  "first_registry = the (StateManager_acquire None)"

definition registry_with_a :: "int instance_dict" where
  "registry_with_a =
     (case create_state first_registry ''a'' None of
        Inr (st, obj) \<Rightarrow> obj
      | Inl e \<Rightarrow> first_registry)"

text \<open>A store whose every reference holds a freshly constructed component without identifier.\<close>

definition fresh_heap :: heap where
  "fresh_heap = (\<lambda>r. Component_init None None)"

text \<open>One mounted component at reference 0.\<close>

definition mounted_leaf :: heap where
  "mounted_leaf =
     fresh_heap(0 := (Component_init None None)\<lparr> is_mounted := True, lifecycle_state := MOUNTED \<rparr>)"

text \<open>
  A parent 0 with the child 1 (name \<open>x\<close>, identifier \<open>a\<close>), and three detached components:
  2 with the name \<open>x\<close>, 3 with the identifier \<open>a\<close>, and 4, whose child 5 has the
  identifier \<open>a\<close>.
\<close>

definition family :: heap where
  "family =
     fresh_heap
       (0 := (Component_init None None)\<lparr> children := [1] \<rparr>,
        1 := (Component_init (Some ''a'') (Some ''x''))\<lparr> parent := Some 0 \<rparr>,
        2 := Component_init None (Some ''x''),
        3 := Component_init (Some ''a'') None,
        4 := (Component_init None None)\<lparr> children := [5] \<rparr>,
        5 := (Component_init (Some ''a'') None)\<lparr> parent := Some 4 \<rparr>)"

section \<open>Notions used in the proofs\<close>

text \<open>
  What a run of \<^verbatim>\<open>mount\<close> does to the store and which effects it leaves: a mounted
  component stays mounted, every component that becomes mounted emits \<open>mount\<close> exactly once,
  nothing else is emitted, and only the mounted flag and the lifecycle state change.
\<close>

definition mount_step :: "heap \<Rightarrow> heap \<Rightarrow> effect list \<Rightarrow> bool" where
  "mount_step h h' t \<longleftrightarrow>
     (\<forall>x. is_mounted (h x) \<longrightarrow> is_mounted (h' x))
     \<and> (\<forall>x. count_list t (Emit x MOUNT) = (if \<not> is_mounted (h x) \<and> is_mounted (h' x) then 1 else 0))
     \<and> set t \<subseteq> range (\<lambda>x. Emit x MOUNT)
     \<and> (\<forall>x. h' x = (h x)\<lparr> is_mounted := is_mounted (h' x), lifecycle_state := lifecycle_state (h' x) \<rparr>)"

text \<open>The same for \<^verbatim>\<open>unmount\<close>: an unmounted component stays unmounted.\<close>

definition unmount_step :: "heap \<Rightarrow> heap \<Rightarrow> effect list \<Rightarrow> bool" where
  "unmount_step h h' t \<longleftrightarrow>
     (\<forall>x. is_mounted (h' x) \<longrightarrow> is_mounted (h x))
     \<and> (\<forall>x. count_list t (Emit x UNMOUNT) = (if is_mounted (h x) \<and> \<not> is_mounted (h' x) then 1 else 0))
     \<and> set t \<subseteq> range (\<lambda>x. Emit x UNMOUNT)"

text \<open>Two stores that differ at most in mounted flags and lifecycle states.\<close>

definition lifecycle_frame :: "heap \<Rightarrow> heap \<Rightarrow> bool" where
  "lifecycle_frame h h' \<longleftrightarrow>
     (\<forall>x. h' x = (h x)\<lparr> is_mounted := is_mounted (h' x), lifecycle_state := lifecycle_state (h' x) \<rparr>)"

text \<open>
  For the propagation of events: \<open>handles\<close> says that \<^verbatim>\<open>child.handle_event(...)\<close>
  returns true. \<open>spec_offered\<close> follows the words of the specification: of the candidates,
  in order, the ones before the first that reports handling, and that one.
\<close>

definition handles :: "nat \<Rightarrow> heap \<Rightarrow> string \<Rightarrow> ref \<Rightarrow> bool" where
  "handles n h event_name child =
     (case handle_event n h child event_name of None \<Rightarrow> False | Some (handled, t) \<Rightarrow> handled)"

definition spec_offered :: "(ref \<Rightarrow> bool) \<Rightarrow> ref list \<Rightarrow> ref list" where
  "spec_offered reports candidates =
     takeWhile (\<lambda>k. \<not> reports k) candidates @ take 1 (dropWhile (\<lambda>k. \<not> reports k) candidates)"

text \<open>The family after \<^verbatim>\<open>mount()\<close> on 0, and after \<^verbatim>\<open>unmount()\<close> on 0 again.\<close>

definition mounted_family :: heap where
  "mounted_family =
     family(0 := (family 0)\<lparr> is_mounted := True, lifecycle_state := MOUNTED \<rparr>,
            1 := (family 1)\<lparr> is_mounted := True, lifecycle_state := MOUNTED \<rparr>)"

definition unmounted_family :: heap where
  "unmounted_family =
     mounted_family(1 := (mounted_family 1)\<lparr> is_mounted := False, lifecycle_state := UNMOUNTED \<rparr>,
                    0 := (mounted_family 0)\<lparr> is_mounted := False, lifecycle_state := UNMOUNTED \<rparr>)"

text \<open>
  A container 0 with the children 1, 2, 3 in insertion order: 1 is a plain component, 2 and 3
  belong to a subclass that consumes \<open>click\<close>, and 3 is invisible.
\<close>

definition panel :: heap where
  "panel =
     fresh_heap
       (0 := (Container_init None None)\<lparr> children := [1, 2, 3] \<rparr>,
        1 := (Component_init None None)\<lparr> parent := Some 0 \<rparr>,
        2 := (Component_init None None)\<lparr> parent := Some 0, intercepts := [''click''] \<rparr>,
        3 := (Component_init None None)\<lparr> parent := Some 0, intercepts := [''click''], is_visible := False \<rparr>)"

section \<open>Runs of \<^verbatim>\<open>add_child\<close> and the shape of the store\<close>

text \<open>
  A run of \<^verbatim>\<open>add_child\<close> calls, each given as the pair of \<open>self\<close> and \<open>child\<close>. A call
  that raises leaves the store as it is, and the run goes on (the caller caught the
  exception); the run returns the final store and the outcome of every call.
\<close>

fun run_add_child :: "nat \<Rightarrow> (ref \<times> ref) list \<Rightarrow> heap \<Rightarrow> (heap \<times> py_error option list) option" where
  "run_add_child n [] h = Some (h, [])"
| "run_add_child n ((self, child) # calls) h =
     (case add_child n self child h of
        None \<Rightarrow> None
      | Some (h', t, outcome) \<Rightarrow>
          (case run_add_child n calls h' of
             None \<Rightarrow> None
           | Some (h'', outcomes) \<Rightarrow> Some (h'', outcome # outcomes)))"

text \<open>Every call of the run attaches a component that has no parent at the time of the call.\<close>

fun attaches_detached :: "nat \<Rightarrow> (ref \<times> ref) list \<Rightarrow> heap \<Rightarrow> bool" where
  "attaches_detached n [] h = True"
| "attaches_detached n ((self, child) # calls) h =
     (parent (h child) = None
      \<and> (case add_child n self child h of
           None \<Rightarrow> True
         | Some (h', t, outcome) \<Rightarrow> attaches_detached n calls h'))"

text \<open>
  The edges of the tree as a relation, the agreement of child lists and parent references, and
  the uniqueness of identifiers among the components that can be reached from one component
  without parent.
\<close>

definition child_rel :: "heap \<Rightarrow> (ref \<times> ref) set" where
  "child_rel h = {(p, c). c \<in> set (children (h p))}"

definition consistent :: "heap \<Rightarrow> bool" where
  "consistent h \<longleftrightarrow> (\<forall>p c. (c \<in> set (children (h p))) = (parent (h c) = Some p))"

definition unique_ids :: "heap \<Rightarrow> bool" where
  "unique_ids h \<longleftrightarrow>
     (\<forall>r x y. parent (h r) = None \<longrightarrow> (r, x) \<in> (child_rel h)\<^sup>* \<longrightarrow> (r, y) \<in> (child_rel h)\<^sup>* \<longrightarrow>
        x \<noteq> y \<longrightarrow> comp_id (h x) \<noteq> None \<longrightarrow> comp_id (h x) \<noteq> comp_id (h y))"

text \<open>The two assignments at the end of a successful \<^verbatim>\<open>add_child\<close>.\<close>

definition attach :: "heap \<Rightarrow> ref \<Rightarrow> ref \<Rightarrow> heap" where
  "attach h self child =
     (let h1 = h(self := (h self)\<lparr> children := children (h self) @ [child] \<rparr>)
      in h1(child := (h1 child)\<lparr> parent := Some self \<rparr>))"

text \<open>
  Two components 0 and 3 with the identifier \<open>y\<close> among components without identifier, all
  fresh; and the store after \<^verbatim>\<open>c0.add_child(c2); c1.add_child(c2); c2.add_child(c3)\<close>.
\<close>

definition two_roots :: heap where
  "two_roots = fresh_heap(0 := Component_init (Some ''y'') None, 3 := Component_init (Some ''y'') None)"

definition shared_child :: heap where
  "shared_child = fst (the (run_add_child 3 [(0, 2), (1, 2), (2, 3)] two_roots))"

text \<open>
  The same components after \<^verbatim>\<open>c0.add_child(c2); c2.add_child(c1); c0.add_child(c3)\<close>,
  where every child is detached when it is attached.
\<close>

definition grown :: heap where
  "grown = fst (the (run_add_child 3 [(0, 2), (2, 1), (0, 3)] two_roots))"

text \<open>
  Two stores that differ at most in positions, sizes and lifecycle states, and in positions
  and sizes only at the components of \<open>D\<close>.
\<close>

definition geometry_frame :: "ref set \<Rightarrow> heap \<Rightarrow> heap \<Rightarrow> bool" where
  "geometry_frame D h h' \<longleftrightarrow>
     (\<forall>x. h' x = (h x)\<lparr> position := position (h' x), size_hw := size_hw (h' x),
                           lifecycle_state := lifecycle_state (h' x) \<rparr>)
     \<and> (\<forall>x. x \<notin> D \<longrightarrow> position (h' x) = position (h x) \<and> size_hw (h' x) = size_hw (h x))"

text \<open>
  A column: the container 0 at (0, 0) with size (100, 200) and the children 1, 2, 3, of which
  1 is mounted and 2 is invisible; and the same column with spacing 10.
\<close>

definition column :: heap where
  "column =
     fresh_heap
       (0 := (Container_init None None)\<lparr> children := [1, 2, 3], size_hw := (100, 200) \<rparr>,
        1 := (Component_init None None)\<lparr> parent := Some 0, is_mounted := True, lifecycle_state := MOUNTED \<rparr>,
        2 := (Component_init None None)\<lparr> parent := Some 0, is_visible := False \<rparr>,
        3 := (Component_init None None)\<lparr> parent := Some 0 \<rparr>)"

definition spaced_column :: heap where
  "spaced_column = column(0 := (column 0)\<lparr> layout_spacing := 10 \<rparr>)"

definition column_laid_out :: heap where
  "column_laid_out = fst (the (calculate_layout 3 0 column))"

definition spaced_column_laid_out :: heap where
  "spaced_column_laid_out = fst (the (calculate_layout 3 0 spaced_column))"

text \<open>
  The collisions of the specification, for the call \<^verbatim>\<open>self.add_child(child)\<close>: a sibling
  with the name of the child; and a component among \<open>incoming\<close> (the child and its
  descendants) that carries the identifier of a component among \<open>members\<close> (the tree of
  \<open>self\<close>).
\<close>

definition name_collision :: "heap \<Rightarrow> ref \<Rightarrow> ref \<Rightarrow> bool" where
  "name_collision h self child \<longleftrightarrow>
     (\<exists>k\<in>set (children (h self)). comp_name (h child) \<noteq> None \<and> comp_name (h k) = comp_name (h child))"

definition id_collision :: "heap \<Rightarrow> ref list \<Rightarrow> ref list \<Rightarrow> bool" where
  "id_collision h members incoming \<longleftrightarrow>
     (\<exists>d\<in>set incoming. \<exists>x\<in>set members. comp_id (h d) \<noteq> None \<and> comp_id (h x) = comp_id (h d))"

chapter \<open>Properties\<close>

section \<open>Observable state\<close>

lemma update_items_fst_frame:
  "k \<notin> fst ` set items \<Longrightarrow> state (fst (update_items items s acc)) k = state s k"
  by (induction items arbitrary: s acc) (auto simp: Let_def)

lemma update_items_changed_keys:
  "distinct (map fst items) \<Longrightarrow>
   snd (update_items items s acc) =
     acc @ map fst (filter (\<lambda>(k, v). dict_get (state s) k None \<noteq> v) items)"
proof (induction items arbitrary: s acc)
  case Nil
  then show ?case by simp
next
  case (Cons item items)
  obtain key v where item: "item = (key, v)" by (cases item)
  from Cons.prems have fresh: "key \<notin> fst ` set items" and dist: "distinct (map fst items)"
    by (auto simp: item)
  let ?s' = "s\<lparr> previous_state := (previous_state s)(key \<mapsto> dict_get (state s) key None),
                 state := (state s)(key \<mapsto> v) \<rparr>"
  have same: "filter (\<lambda>(k, w). dict_get (state ?s') k None \<noteq> w) items
            = filter (\<lambda>(k, w). dict_get (state s) k None \<noteq> w) items"
    using fresh by (intro filter_cong) (auto simp: dict_get_def image_iff)
  show ?case
  proof (cases "dict_get (state s) key None \<noteq> v")
    case True
    then have "update_items (item # items) s acc = update_items items ?s' (acc @ [key])"
      by (simp add: item Let_def)
    then show ?thesis
      using Cons.IH [OF dist, of ?s' "acc @ [key]"] True
      by (simp only: same) (simp add: item)
  next
    case False
    then have "update_items (item # items) s acc = update_items items s acc"
      by (simp add: item Let_def)
    then show ?thesis
      using Cons.IH [OF dist, of s acc] False by (simp add: item)
  qed
qed

text \<open>
  Claim C7. \<^verbatim>\<open>set(key, value)\<close> emits exactly one notification with the keyword arguments
  \<open>key\<close>, \<open>value\<close>, \<open>old_value\<close> when the value differs from the current one (an unset key
  reads as \<^verbatim>\<open>None\<close>), and nothing when they are equal. \<^verbatim>\<open>update(mapping)\<close>, for a
  dictionary (its keys are distinct), emits exactly one notification with the keyword arguments
  \<open>keys\<close> and \<open>updates\<close> when at least one entry differs from the current value, and nothing
  otherwise; \<open>keys\<close> are the keys that changed, in order, and \<open>updates\<close> is the whole mapping.
  The keyword names of the two notifications are disjoint, so a consumer can tell them apart.
\<close>

theorem state_notifications:
  "snd (State_set s key v) =
     (if dict_get (state s) key None \<noteq> v
      then [(STATE_CHANGE,
             [(''key'', KStr key), (''value'', KVal v),
              (''old_value'', KVal (dict_get (state s) key None))])]
      else [])
   \<and> (distinct (map fst updates) \<longrightarrow>
      snd (State_update s updates) =
        (if list_ex (\<lambda>(k, w). dict_get (state s) k None \<noteq> w) updates
         then [(STATE_CHANGE,
                [(''keys'', KKeys (map fst (filter (\<lambda>(k, w). dict_get (state s) k None \<noteq> w) updates))),
                 (''updates'', KUpdates updates)])]
         else []))
   \<and> (\<forall>e1 \<in> set (snd (State_set s key v)). \<forall>e2 \<in> set (snd (State_update s' updates')).
        fst ` set (snd e1) = {''key'', ''value'', ''old_value''}
        \<and> fst ` set (snd e2) = {''keys'', ''updates''}
        \<and> fst ` set (snd e1) \<inter> fst ` set (snd e2) = {})"
proof (intro conjI impI)
  show "snd (State_set s key v) =
     (if dict_get (state s) key None \<noteq> v
      then [(STATE_CHANGE,
             [(''key'', KStr key), (''value'', KVal v),
              (''old_value'', KVal (dict_get (state s) key None))])]
      else [])"
    by (simp add: State_set_def Let_def)
next
  assume d: "distinct (map fst updates)"
  have "snd (update_items updates s []) = map fst (filter (\<lambda>(k, w). dict_get (state s) k None \<noteq> w) updates)"
    using update_items_changed_keys [OF d, of s "[]"] by simp
  moreover have "(filter (\<lambda>(k, w). dict_get (state s) k None \<noteq> w) updates \<noteq> [])
     = list_ex (\<lambda>(k, w). dict_get (state s) k None \<noteq> w) updates"
    by (simp add: filter_empty_conv list_ex_iff)
  ultimately show "snd (State_update s updates) =
        (if list_ex (\<lambda>(k, w). dict_get (state s) k None \<noteq> w) updates
         then [(STATE_CHANGE,
                [(''keys'', KKeys (map fst (filter (\<lambda>(k, w). dict_get (state s) k None \<noteq> w) updates))),
                 (''updates'', KUpdates updates)])]
         else [])"
    by (cases "update_items updates s []") (auto simp: State_update_def)
next
  show "\<forall>e1 \<in> set (snd (State_set s key v)). \<forall>e2 \<in> set (snd (State_update s' updates')).
        fst ` set (snd e1) = {''key'', ''value'', ''old_value''}
        \<and> fst ` set (snd e2) = {''keys'', ''updates''}
        \<and> fst ` set (snd e1) \<inter> fst ` set (snd e2) = {}"
    by (cases "update_items updates' s' []")
       (auto simp: State_set_def State_update_def Let_def split: if_splits)
qed

theorem state_notifications_witness:
  "distinct (map fst [(''a'', Some (2::int)), (''b'', None)])
   \<and> snd (State_set demo_state ''a'' (Some 2)) =
       [(STATE_CHANGE, [(''key'', KStr ''a''), (''value'', KVal (Some 2)), (''old_value'', KVal (Some 1))])]
   \<and> snd (State_set demo_state ''a'' (Some 1)) = []
   \<and> snd (State_set demo_state ''b'' None) = []
   \<and> snd (State_update demo_state [(''a'', Some 2), (''b'', None)]) =
       [(STATE_CHANGE, [(''keys'', KKeys [''a'']), (''updates'', KUpdates [(''a'', Some 2), (''b'', None)])])]
   \<and> snd (State_update demo_state [(''a'', Some 1), (''b'', None)]) = []"
  using state_notifications [of demo_state "''a''" "Some 2" "[(''a'', Some 2), (''b'', None)]"
      demo_state "[(''a'', Some 2), (''b'', None)]"]
    state_notifications [of demo_state "''a''" "Some 1" "[(''a'', Some 1), (''b'', None)]" demo_state "[]"]
    state_notifications [of demo_state "''b''" "None" "[]" demo_state "[]"]
  by (simp add: demo_state_def State_init_def dict_get_def)

section \<open>The named-state registry\<close>

text \<open>
  Claim C2 (the code departs from it). The guard of \<^verbatim>\<open>StateManager.__init__\<close> asks
  \<^verbatim>\<open>hasattr(self, "__initialized")\<close>, but the attribute that \<^verbatim>\<open>__new__\<close> and
  \<^verbatim>\<open>__init__\<close> write is \<^verbatim>\<open>_StateManager__initialized\<close>. No method ever gives the
  instance an attribute with the literal name, so every acquisition runs
  \<^verbatim>\<open>self._states = {}\<close> again: right after an acquisition \<^verbatim>\<open>create_state\<close> accepts
  every name, also one that was registered before.
\<close>

theorem reacquired_registry_accepts_known_name:
  "\<not> hasattr obj ''__initialized'' \<Longrightarrow>
   create_state (the (StateManager_acquire (Some obj))) nm initial_state =
     Inr (State_init initial_state,
          (the (StateManager_acquire (Some obj)))(''_states'' \<mapsto> AStates [nm \<mapsto> State_init initial_state]))"
  by (simp add: StateManager_acquire_def StateManager_new_def StateManager_init_def create_state_def
      states_of_def Let_def)

text \<open>
  The registry in which \<open>a\<close> was created refuses a second \<open>a\<close> and returns the first on
  \<^verbatim>\<open>get_state\<close>; after one more \<^verbatim>\<open>StateManager()\<close> the same instance has forgotten
  \<open>a\<close> and creates it again.
\<close>

theorem reacquired_registry_accepts_known_name_witness:
  "\<not> hasattr registry_with_a ''__initialized''
   \<and> get_state registry_with_a ''a'' = Inr (State_init None)
   \<and> create_state registry_with_a ''a'' None = Inl (ValueError ''a'')
   \<and> isl (get_state (the (StateManager_acquire (Some registry_with_a))) ''a'')
   \<and> \<not> isl (create_state (the (StateManager_acquire (Some registry_with_a))) ''a'' None)"
proof -
  have h: "\<not> hasattr registry_with_a ''__initialized''"
    by (simp add: registry_with_a_def first_registry_def StateManager_acquire_def StateManager_new_def
        StateManager_init_def create_state_def states_of_def Let_def hasattr_def mangled_def)
  have g: "get_state registry_with_a ''a'' = Inr (State_init None)"
    by (simp add: registry_with_a_def first_registry_def StateManager_acquire_def StateManager_new_def
        StateManager_init_def create_state_def states_of_def Let_def hasattr_def mangled_def get_state_def)
  have c: "create_state registry_with_a ''a'' None = Inl (ValueError ''a'')"
    by (simp add: registry_with_a_def first_registry_def StateManager_acquire_def StateManager_new_def
        StateManager_init_def create_state_def states_of_def Let_def hasattr_def mangled_def)
  have k: "isl (get_state (the (StateManager_acquire (Some registry_with_a))) ''a'')"
    using h by (simp add: StateManager_acquire_def StateManager_new_def
        StateManager_init_def states_of_def get_state_def)
  show ?thesis
    using h g c k reacquired_registry_accepts_known_name [OF h, of "''a''" None] by simp
qed

section \<open>The event emitter\<close>

text \<open>
  Claim C5 (the code departs from it). Whatever the signal library does on
  \<^verbatim>\<open>send\<close>, \<^verbatim>\<open>emit\<close> hands it the emitter and the keyword arguments only: the
  positional payload never reaches a handler, so emitting with a positional payload is the
  same as emitting without one. After \<^verbatim>\<open>on(event_name, handler)\<close> on a new emitter,
  \<^verbatim>\<open>emit(event_name, *args, **kwargs)\<close> is the library's \<^verbatim>\<open>send(self, **kwargs)\<close>.
\<close>

theorem emit_ignores_positional_payload:
  "EventEmitter_emit lib self event_name args kwargs w = EventEmitter_emit lib self event_name [] kwargs w
   \<and> EventEmitter_emit lib (fst (EventEmitter_on lib EventEmitter_init event_name handler w0)) event_name args kwargs w
       = send lib (fst (signal lib event_name w0))
           (fst (EventEmitter_on lib EventEmitter_init event_name handler w0)) kwargs w"
  by (simp add: EventEmitter_emit_def EventEmitter_on_def EventEmitter_init_def Let_def split: prod.splits)

section \<open>Setters\<close>

text \<open>
  Claim C9 (the code departs from it). On a mounted component the setters of
  \<^verbatim>\<open>position\<close> and \<^verbatim>\<open>size\<close> run \<^verbatim>\<open>update()\<close> also when the assigned value is the
  current one: the lifecycle state becomes \<open>UPDATED\<close> and the update and render events are
  emitted. Only the setter of \<^verbatim>\<open>visible\<close> compares first and does nothing on an equal value.
\<close>

theorem setters_update_without_change:
  "is_mounted (h self) \<Longrightarrow> cls (h self) = ComponentCls \<Longrightarrow>
   set_position (Suc (Suc n)) self (position (h self)) h
     = Some (h(self := (h self)\<lparr> lifecycle_state := UPDATED \<rparr>), [Emit self UPDATE, Emit self RENDER])
   \<and> set_size (Suc (Suc n)) self (size_hw (h self)) h
     = Some (h(self := (h self)\<lparr> lifecycle_state := UPDATED \<rparr>), [Emit self UPDATE, Emit self RENDER])
   \<and> set_visible (Suc (Suc n)) self (is_visible (h self)) h = Some (h, [])"
  by (simp add: set_position_def set_position_with_def set_size_def set_size_with_def
      set_visible_def set_visible_with_def Component_update_def Let_def)

theorem setters_update_without_change_witness:
  "is_mounted (mounted_leaf 0) \<and> cls (mounted_leaf 0) = ComponentCls
   \<and> position (mounted_leaf 0) = (0, 0) \<and> size_hw (mounted_leaf 0) = (0, 0)
   \<and> map_option snd (set_position 2 0 (0, 0) mounted_leaf) = Some [Emit 0 UPDATE, Emit 0 RENDER]
   \<and> map_option snd (set_size 2 0 (0, 0) mounted_leaf) = Some [Emit 0 UPDATE, Emit 0 RENDER]
   \<and> map_option snd (set_visible 2 0 True mounted_leaf) = Some []"
proof -
  have m: "is_mounted (mounted_leaf 0)" and c: "cls (mounted_leaf 0) = ComponentCls"
    by (simp_all add: mounted_leaf_def fresh_heap_def Component_init_def)
  have v: "position (mounted_leaf 0) = (0, 0)" "size_hw (mounted_leaf 0) = (0, 0)"
    "is_visible (mounted_leaf 0) = True"
    by (simp_all add: mounted_leaf_def fresh_heap_def Component_init_def)
  have two: "(2::nat) = Suc (Suc 0)" by simp
  show ?thesis
    using setters_update_without_change [of mounted_leaf 0 0] m c v by (simp add: two)
qed

section \<open>Adding a child\<close>

text \<open>
  Claim C10. When \<open>child\<close> is already in the child list of \<open>self\<close>, \<^verbatim>\<open>add_child\<close> returns
  normally whatever the names and identifiers are, emits nothing and leaves the whole store
  as it was: no second entry, the same parent reference and the same mounted flags.
\<close>

theorem add_child_again_is_noop:
  "child \<in> set (children (h self)) \<Longrightarrow> add_child n self child h = Some (h, [], None)"
  by (simp add: add_child_def)

text \<open>Child 1 of the family carries a name and an identifier; adding it again raises nothing.\<close>

theorem add_child_again_is_noop_witness:
  "1 \<in> set (children (family 0)) \<and> comp_name (family 1) = Some ''x''
   \<and> add_child 0 0 1 family = Some (family, [], None)"
proof -
  have m: "1 \<in> set (children (family 0))" and n: "comp_name (family 1) = Some ''x''"
    by (simp_all add: family_def fresh_heap_def Component_init_def)
  show ?thesis using m n add_child_again_is_noop [of 1 family 0 0] by simp
qed

section \<open>Finite trees\<close>

text \<open>
  When \<^verbatim>\<open>_get_all_descendants\<close> returns with fuel \<open>m\<close>, the part of the store below the
  component is a finite tree of depth below \<open>m\<close>. The recursive methods then return with that
  much fuel as well; the lemmas on this are stated method by method below.
\<close>

lemma collect_set:
  "collect f ks = Some ds \<Longrightarrow>
     set ds = set ks \<union> (\<Union>k\<in>set ks. set (the (f k))) \<and> (\<forall>k\<in>set ks. f k \<noteq> None)"
  by (induction ks arbitrary: ds) (auto split: option.splits)

lemma get_all_descendants_cong:
  "(\<And>x. children (g x) = children (h x)) \<Longrightarrow> get_all_descendants n g r = get_all_descendants n h r"
proof (induction n arbitrary: r)
  case 0
  show ?case by simp
next
  case (Suc n)
  have "(\<lambda>child. get_all_descendants n g child) = (\<lambda>child. get_all_descendants n h child)"
    by (rule ext) (rule Suc.IH [OF Suc.prems])
  then show ?case by (simp add: Suc.prems)
qed

lemma children_have_descendants:
  assumes "get_all_descendants (Suc m) h r = Some ds" "k \<in> set (children (h r))"
  shows "\<exists>dk. get_all_descendants m h k = Some dk"
proof -
  from assms(1) have "collect (\<lambda>child. get_all_descendants m h child) (children (h r)) = Some ds"
    by simp
  from collect_set [OF this] assms(2) show ?thesis by auto
qed

lemma render_all_total:
  "(\<And>k. k \<in> set ks \<Longrightarrow> \<exists>t. rend k = Some t) \<Longrightarrow> \<exists>t. render_all rend ks = Some t"
proof (induction ks)
  case Nil
  show ?case by simp
next
  case (Cons k ks)
  from Cons.prems [of k] obtain t where t: "rend k = Some t" by auto
  have "\<exists>t. render_all rend ks = Some t"
    by (rule Cons.IH) (rule Cons.prems, simp)
  then obtain t' where "render_all rend ks = Some t'" by blast
  with t show ?case by simp
qed

lemma render_total:
  "get_all_descendants m h r = Some ds \<Longrightarrow> \<exists>t. render m h r = Some t"
proof (induction m arbitrary: r ds)
  case 0
  then show ?case by simp
next
  case (Suc m)
  show ?case
  proof (cases "cls (h r)")
    case ComponentCls
    then show ?thesis by simp
  next
    case ContainerCls
    have "\<exists>t. render_all (\<lambda>child. render m h child)
              (filter (\<lambda>child. is_visible (h child)) (children (h r))) = Some t"
    proof (rule render_all_total)
      fix k assume "k \<in> set (filter (\<lambda>child. is_visible (h child)) (children (h r)))"
      then have "k \<in> set (children (h r))" by simp
      from children_have_descendants [OF Suc.prems this] obtain dk
        where "get_all_descendants m h k = Some dk" by blast
      then show "\<exists>t. render m h k = Some t" by (rule Suc.IH)
    qed
    with ContainerCls show ?thesis by auto
  qed
qed

section \<open>Lifecycle\<close>

text \<open>Three ways to reason about a \<^verbatim>\<open>for\<close> loop over the store.\<close>

lemma for_each_rule:
  assumes "for_each f xs (h0, t0) = Some (h', t')"
    and refl: "\<And>h. P h h []"
    and trans: "\<And>h h1 h2 t1 t2. P h h1 t1 \<Longrightarrow> P h1 h2 t2 \<Longrightarrow> P h h2 (t1 @ t2)"
    and step: "\<And>x h h1 t. x \<in> set xs \<Longrightarrow> f x h = Some (h1, t) \<Longrightarrow> P h h1 t"
  shows "\<exists>t. t' = t0 @ t \<and> P h0 h' t"
  using assms(1) step
proof (induction xs arbitrary: h0 t0)
  case Nil
  then show ?case using refl by simp
next
  case (Cons x xs)
  from Cons.prems(1) obtain h1 t1 where fx: "f x h0 = Some (h1, t1)"
    and rest: "for_each f xs (h1, t0 @ t1) = Some (h', t')"
    by (auto split: option.splits)
  have p1: "P h0 h1 t1" using Cons.prems(2) [of x h0 h1 t1] fx by simp
  have "\<exists>t. t' = (t0 @ t1) @ t \<and> P h1 h' t"
    by (rule Cons.IH [OF rest], rule Cons.prems(2)) auto
  then obtain t2 where t2: "t' = (t0 @ t1) @ t2" "P h1 h' t2"
    by auto
  from trans [OF p1 t2(2)] t2(1) show ?case by simp
qed

lemma mount_step_refl: "mount_step h h []"
  by (simp add: mount_step_def)

lemma mount_step_trans:
  assumes "mount_step h h1 t1" "mount_step h1 h2 t2"
  shows "mount_step h h2 (t1 @ t2)"
  unfolding mount_step_def
proof (intro conjI allI)
  fix x
  show "is_mounted (h x) \<longrightarrow> is_mounted (h2 x)"
    using assms by (simp add: mount_step_def)
  have c1: "count_list t1 (Emit x MOUNT) = (if \<not> is_mounted (h x) \<and> is_mounted (h1 x) then 1 else 0)"
    and a1: "is_mounted (h x) \<longrightarrow> is_mounted (h1 x)"
    using assms(1) by (simp_all add: mount_step_def)
  have c2: "count_list t2 (Emit x MOUNT) = (if \<not> is_mounted (h1 x) \<and> is_mounted (h2 x) then 1 else 0)"
    and a2: "is_mounted (h1 x) \<longrightarrow> is_mounted (h2 x)"
    using assms(2) by (simp_all add: mount_step_def)
  show "count_list (t1 @ t2) (Emit x MOUNT) = (if \<not> is_mounted (h x) \<and> is_mounted (h2 x) then 1 else 0)"
    using c1 c2 a1 a2 by auto
  have a: "h1 x = (h x)\<lparr> is_mounted := is_mounted (h1 x), lifecycle_state := lifecycle_state (h1 x) \<rparr>"
    using assms(1) by (simp add: mount_step_def)
  have b: "h2 x = (h1 x)\<lparr> is_mounted := is_mounted (h2 x), lifecycle_state := lifecycle_state (h2 x) \<rparr>"
    using assms(2) by (simp add: mount_step_def)
  show "h2 x = (h x)\<lparr> is_mounted := is_mounted (h2 x), lifecycle_state := lifecycle_state (h2 x) \<rparr>"
    by (subst b, subst a) simp
next
  show "set (t1 @ t2) \<subseteq> range (\<lambda>x. Emit x MOUNT)"
    using assms by (simp add: mount_step_def)
qed

lemma mount_step_mount: "mount n self h = Some (h', t) \<Longrightarrow> mount_step h h' t"
proof (induction n arbitrary: self h h' t)
  case 0
  then show ?case by simp
next
  case (Suc n)
  show ?case
  proof (cases "is_mounted (h self)")
    case True
    with Suc.prems show ?thesis by (simp add: mount_step_refl)
  next
    case False
    let ?h1 = "h(self := (h self)\<lparr> is_mounted := True, lifecycle_state := MOUNTED \<rparr>)"
    from Suc.prems False
    have fe: "for_each (\<lambda>child. mount n child) (children (h self)) (?h1, [Emit self MOUNT]) = Some (h', t)"
      by simp
    have "\<exists>t2. t = [Emit self MOUNT] @ t2 \<and> mount_step ?h1 h' t2"
    proof (rule for_each_rule [where P = mount_step, OF fe])
      show "\<And>h. mount_step h h []" by (rule mount_step_refl)
      show "\<And>h h1 h2 t1 t2. mount_step h h1 t1 \<Longrightarrow> mount_step h1 h2 t2 \<Longrightarrow> mount_step h h2 (t1 @ t2)"
        by (rule mount_step_trans)
      show "\<And>x g g1 t'. x \<in> set (children (h self)) \<Longrightarrow> mount n x g = Some (g1, t') \<Longrightarrow> mount_step g g1 t'"
        by (rule Suc.IH)
    qed
    then obtain t2 where t2: "t = [Emit self MOUNT] @ t2" "mount_step ?h1 h' t2" by blast
    have first: "mount_step h ?h1 [Emit self MOUNT]"
      using False by (auto simp: mount_step_def)
    from mount_step_trans [OF first t2(2)] t2(1) show ?thesis by simp
  qed
qed

lemma for_each_member:
  assumes "for_each f xs (h0, t0) = Some (h', t')" "I h0" "c \<in> set xs"
    and step: "\<And>x h h1 t. x \<in> set xs \<Longrightarrow> I h \<Longrightarrow> f x h = Some (h1, t) \<Longrightarrow> I h1"
  shows "\<exists>g g' t. I g \<and> f c g = Some (g', t)"
  using assms(1,2,3) step
proof (induction xs arbitrary: h0 t0)
  case Nil
  then show ?case by simp
next
  case (Cons x xs)
  from Cons.prems(1) obtain h1 t1 where fx: "f x h0 = Some (h1, t1)"
    and rest: "for_each f xs (h1, t0 @ t1) = Some (h', t')"
    by (auto split: option.splits)
  show ?case
  proof (cases "c = x")
    case True
    with fx Cons.prems(2) show ?thesis by blast
  next
    case False
    with Cons.prems(3) have cin: "c \<in> set xs" by simp
    have i1: "I h1" using Cons.prems(4) [of x h0 h1 t1] Cons.prems(2) fx by simp
    show ?thesis
      by (rule Cons.IH [OF rest i1 cin], rule Cons.prems(4)) auto
  qed
qed

lemma for_each_invariant:
  assumes "for_each f xs (h0, t0) = Some (h', t')" "I h0"
    and step: "\<And>x h h1 t. x \<in> set xs \<Longrightarrow> I h \<Longrightarrow> f x h = Some (h1, t) \<Longrightarrow> I h1"
  shows "I h'"
  using assms(1,2) step
proof (induction xs arbitrary: h0 t0)
  case Nil
  then show ?case by simp
next
  case (Cons x xs)
  from Cons.prems(1) obtain h1 t1 where fx: "f x h0 = Some (h1, t1)"
    and rest: "for_each f xs (h1, t0 @ t1) = Some (h', t')"
    by (auto split: option.splits)
  have i1: "I h1" using Cons.prems(3) [of x h0 h1 t1] Cons.prems(2) fx by simp
  show ?case
    by (rule Cons.IH [OF rest i1], rule Cons.prems(3)) auto
qed

lemma lifecycle_frame_refl: "lifecycle_frame h h"
  by (simp add: lifecycle_frame_def)

lemma lifecycle_frame_trans:
  assumes "lifecycle_frame h h1" "lifecycle_frame h1 h2"
  shows "lifecycle_frame h h2"
  unfolding lifecycle_frame_def
proof
  fix x
  have a: "h1 x = (h x)\<lparr> is_mounted := is_mounted (h1 x), lifecycle_state := lifecycle_state (h1 x) \<rparr>"
    using assms(1) by (simp add: lifecycle_frame_def)
  have b: "h2 x = (h1 x)\<lparr> is_mounted := is_mounted (h2 x), lifecycle_state := lifecycle_state (h2 x) \<rparr>"
    using assms(2) by (simp add: lifecycle_frame_def)
  show "h2 x = (h x)\<lparr> is_mounted := is_mounted (h2 x), lifecycle_state := lifecycle_state (h2 x) \<rparr>"
    by (subst b, subst a) simp
qed

lemma lifecycle_frame_fields:
  assumes "lifecycle_frame h h'"
  shows "children (h' x) = children (h x)" "parent (h' x) = parent (h x)"
    "comp_id (h' x) = comp_id (h x)" "comp_name (h' x) = comp_name (h x)"
    "is_visible (h' x) = is_visible (h x)" "position (h' x) = position (h x)"
    "size_hw (h' x) = size_hw (h x)" "cls (h' x) = cls (h x)"
    "layout_direction (h' x) = layout_direction (h x)" "layout_spacing (h' x) = layout_spacing (h x)"
    "intercepts (h' x) = intercepts (h x)"
proof -
  have e: "h' x = (h x)\<lparr> is_mounted := is_mounted (h' x), lifecycle_state := lifecycle_state (h' x) \<rparr>"
    using assms by (simp add: lifecycle_frame_def)
  show "children (h' x) = children (h x)" by (subst e) simp
  show "parent (h' x) = parent (h x)" by (subst e) simp
  show "comp_id (h' x) = comp_id (h x)" by (subst e) simp
  show "comp_name (h' x) = comp_name (h x)" by (subst e) simp
  show "is_visible (h' x) = is_visible (h x)" by (subst e) simp
  show "position (h' x) = position (h x)" by (subst e) simp
  show "size_hw (h' x) = size_hw (h x)" by (subst e) simp
  show "cls (h' x) = cls (h x)" by (subst e) simp
  show "layout_direction (h' x) = layout_direction (h x)" by (subst e) simp
  show "layout_spacing (h' x) = layout_spacing (h x)" by (subst e) simp
  show "intercepts (h' x) = intercepts (h x)" by (subst e) simp
qed

lemma mount_mounts: "mount n self h = Some (h', t) \<Longrightarrow> is_mounted (h' self)"
proof (cases n)
  case 0
  assume "mount n self h = Some (h', t)"
  with 0 show ?thesis by simp
next
  case (Suc k)
  assume a: "mount n self h = Some (h', t)"
  show ?thesis
  proof (cases "is_mounted (h self)")
    case True
    with a Suc show ?thesis by simp
  next
    case False
    let ?h1 = "h(self := (h self)\<lparr> is_mounted := True, lifecycle_state := MOUNTED \<rparr>)"
    from a Suc False
    have fe: "for_each (\<lambda>child. mount k child) (children (h self)) (?h1, [Emit self MOUNT]) = Some (h', t)"
      by simp
    show ?thesis
    proof (rule for_each_invariant [where I = "\<lambda>g. is_mounted (g self)", OF fe])
      show "is_mounted (?h1 self)" by simp
    next
      fix x g g1 t'
      assume "is_mounted (g self)" "mount k x g = Some (g1, t')"
      then show "is_mounted (g1 self)"
        using mount_step_mount [of k x g g1 t'] by (simp add: mount_step_def)
    qed
  qed
qed

lemma mount_frame: "mount n self h = Some (h', t) \<Longrightarrow> lifecycle_frame h h'"
  using mount_step_mount [of n self h h' t] by (simp add: mount_step_def lifecycle_frame_def)

lemma unmount_frame: "unmount n self h = Some (h', t) \<Longrightarrow> lifecycle_frame h h'"
proof (induction n arbitrary: self h h' t)
  case 0
  then show ?case by simp
next
  case (Suc n)
  show ?case
  proof (cases "is_mounted (h self)")
    case False
    with Suc.prems show ?thesis by (simp add: lifecycle_frame_refl)
  next
    case True
    from Suc.prems True obtain h1 t1 where
      fe: "for_each (\<lambda>child. unmount n child) (children (h self)) (h, []) = Some (h1, t1)"
      and res: "h' = h1(self := (h1 self)\<lparr> is_mounted := False, lifecycle_state := UNMOUNTED \<rparr>)"
      by (auto split: option.splits)
    have "lifecycle_frame h h1"
      by (rule for_each_invariant [where I = "lifecycle_frame h", OF fe lifecycle_frame_refl])
         (blast intro: lifecycle_frame_trans Suc.IH)
    moreover have "lifecycle_frame h1 h'"
      unfolding res by (simp add: lifecycle_frame_def)
    ultimately show ?thesis by (rule lifecycle_frame_trans)
  qed
qed

lemma unmount_unmounts: "unmount n self h = Some (h', t) \<Longrightarrow> \<not> is_mounted (h' self)"
  by (cases n) (auto split: if_splits option.splits)

text \<open>
  A call of \<^verbatim>\<open>unmount\<close> that returns cannot have unmounted a component whose own
  \<^verbatim>\<open>unmount\<close> is still running: for a set \<open>A\<close> of mounted components, each with a child
  in \<open>A\<close> or the child \<open>x\<close>, a returning \<^verbatim>\<open>x.unmount()\<close> leaves all of \<open>A\<close> mounted.
  (On a cycle of mounted components the recursion never returns.)
\<close>

lemma unmount_pinned:
  "unmount n x h = Some (h', t) \<Longrightarrow> \<forall>a\<in>A. is_mounted (h a) \<Longrightarrow>
   \<forall>a\<in>A. \<exists>c \<in> set (children (h a)). c \<in> A \<or> c = x \<Longrightarrow>
   (\<forall>a\<in>A. is_mounted (h' a)) \<and> (is_mounted (h x) \<longrightarrow> x \<notin> A)"
proof (induction n arbitrary: x h h' t A)
  case 0
  then show ?case by simp
next
  case (Suc n)
  show ?case
  proof (cases "is_mounted (h x)")
    case False
    with Suc.prems show ?thesis by simp
  next
    case True
    from Suc.prems(1) True obtain h1 t1 where
      fe: "for_each (\<lambda>child. unmount n child) (children (h x)) (h, []) = Some (h1, t1)"
      and res: "h' = h1(x := (h1 x)\<lparr> is_mounted := False, lifecycle_state := UNMOUNTED \<rparr>)"
      by (auto split: option.splits)
    let ?A = "insert x A"
    let ?I = "\<lambda>g. (\<forall>a\<in>?A. is_mounted (g a)) \<and> lifecycle_frame h g"
    have i0: "?I h" using True Suc.prems(2) by (simp add: lifecycle_frame_refl)
    have step: "?I g1" if c: "c \<in> set (children (h x))" and g: "?I g"
      and u: "unmount n c g = Some (g1, t')" for c g g1 t'
    proof -
      have ch: "\<And>y. children (g y) = children (h y)"
        using g lifecycle_frame_fields(1) by blast
      have "\<forall>a\<in>?A. \<exists>c' \<in> set (children (g a)). c' \<in> ?A \<or> c' = c"
        using Suc.prems(3) c by (auto simp: ch)
      from Suc.IH [OF u _ this] g have "\<forall>a\<in>?A. is_mounted (g1 a)" by blast
      moreover have "lifecycle_frame h g1"
        using g unmount_frame [OF u] by (blast intro: lifecycle_frame_trans)
      ultimately show ?thesis by simp
    qed
    have i1: "?I h1"
      by (rule for_each_invariant [where I = ?I, OF fe i0]) (rule step)
    have notin: "x \<notin> A"
    proof
      assume "x \<in> A"
      with Suc.prems(3) obtain c where c: "c \<in> set (children (h x))" "c \<in> ?A" by auto
      from for_each_member [where I = ?I, OF fe i0 c(1)] step
      obtain g g1 t' where g: "?I g" and u: "unmount n c g = Some (g1, t')" by blast
      from step [OF c(1) g u] c(2) have "is_mounted (g1 c)" by blast
      with unmount_unmounts [OF u] show False by simp
    qed
    show ?thesis using i1 notin by (auto simp: res)
  qed
qed

lemma unmount_loop_keeps_mounted:
  assumes "is_mounted (h x)"
    and fe: "for_each (\<lambda>child. unmount n child) (children (h x)) (h, []) = Some (h1, t1)"
  shows "is_mounted (h1 x)"
proof -
  let ?I = "\<lambda>g. is_mounted (g x) \<and> lifecycle_frame h g"
  have "?I h1"
  proof (rule for_each_invariant [where I = ?I, OF fe])
    show "?I h" using assms(1) by (simp add: lifecycle_frame_refl)
  next
    fix c g g1 t'
    assume c: "c \<in> set (children (h x))" and g: "?I g" and u: "unmount n c g = Some (g1, t')"
    have ch: "children (g x) = children (h x)"
      using g lifecycle_frame_fields(1) by blast
    have "\<forall>a\<in>{x}. \<exists>c' \<in> set (children (g a)). c' \<in> {x} \<or> c' = c"
      using c by (auto simp: ch)
    from unmount_pinned [OF u _ this] g have "is_mounted (g1 x)" by simp
    moreover have "lifecycle_frame h g1"
      using g unmount_frame [OF u] by (blast intro: lifecycle_frame_trans)
    ultimately show "?I g1" by simp
  qed
  then show ?thesis by simp
qed

lemma unmount_step_refl: "unmount_step h h []"
  unfolding unmount_step_def by simp

lemma unmount_stepD:
  assumes "unmount_step h h' t"
  shows "is_mounted (h' x) \<Longrightarrow> is_mounted (h x)"
    and "count_list t (Emit x UNMOUNT) = (if is_mounted (h x) \<and> \<not> is_mounted (h' x) then 1 else 0)"
    and "set t \<subseteq> range (\<lambda>x. Emit x UNMOUNT)"
  using assms unfolding unmount_step_def by blast+

lemma unmount_step_trans:
  assumes "unmount_step h h1 t1" "unmount_step h1 h2 t2"
  shows "unmount_step h h2 (t1 @ t2)"
  unfolding unmount_step_def
proof (intro conjI allI impI)
  fix x
  assume "is_mounted (h2 x)"
  then show "is_mounted (h x)"
    using unmount_stepD(1) [OF assms(1)] unmount_stepD(1) [OF assms(2)] by blast
next
  fix x
  have a1: "is_mounted (h1 x) \<longrightarrow> is_mounted (h x)"
    using unmount_stepD(1) [OF assms(1)] by blast
  have a2: "is_mounted (h2 x) \<longrightarrow> is_mounted (h1 x)"
    using unmount_stepD(1) [OF assms(2)] by blast
  show "count_list (t1 @ t2) (Emit x UNMOUNT) = (if is_mounted (h x) \<and> \<not> is_mounted (h2 x) then 1 else 0)"
    unfolding count_list_append unmount_stepD(2) [OF assms(1)] unmount_stepD(2) [OF assms(2)]
    using a1 a2 by (cases "is_mounted (h x)"; cases "is_mounted (h1 x)"; cases "is_mounted (h2 x)") simp_all
next
  show "set (t1 @ t2) \<subseteq> range (\<lambda>x. Emit x UNMOUNT)"
    using unmount_stepD(3) [OF assms(1)] unmount_stepD(3) [OF assms(2)] by simp
qed

lemma unmount_step_unmount: "unmount n self h = Some (h', t) \<Longrightarrow> unmount_step h h' t"
proof (induction n arbitrary: self h h' t)
  case 0
  then show ?case by simp
next
  case (Suc n)
  show ?case
  proof (cases "is_mounted (h self)")
    case False
    with Suc.prems show ?thesis by (simp add: unmount_step_refl)
  next
    case True
    from Suc.prems True obtain h1 t1 where
      fe: "for_each (\<lambda>child. unmount n child) (children (h self)) (h, []) = Some (h1, t1)"
      and res: "h' = h1(self := (h1 self)\<lparr> is_mounted := False, lifecycle_state := UNMOUNTED \<rparr>)"
        "t = t1 @ [Emit self UNMOUNT]"
      by (auto split: option.splits)
    have "\<exists>t. t1 = [] @ t \<and> unmount_step h h1 t"
    proof (rule for_each_rule [where P = unmount_step, OF fe])
      show "\<And>h. unmount_step h h []" by (rule unmount_step_refl)
      show "\<And>h h1 h2 t1 t2. unmount_step h h1 t1 \<Longrightarrow> unmount_step h1 h2 t2 \<Longrightarrow> unmount_step h h2 (t1 @ t2)"
        by (rule unmount_step_trans)
      show "\<And>x g g1 t'. x \<in> set (children (h self)) \<Longrightarrow> unmount n x g = Some (g1, t') \<Longrightarrow> unmount_step g g1 t'"
        by (rule Suc.IH)
    qed
    then have s1: "unmount_step h h1 t1" by simp
    have m1: "is_mounted (h1 self)"
      by (rule unmount_loop_keeps_mounted [OF True fe])
    have last: "unmount_step h1 h' [Emit self UNMOUNT]"
      unfolding unmount_step_def res(1)
    proof (intro conjI allI)
      fix x
      show "is_mounted ((h1(self := (h1 self)\<lparr> is_mounted := False, lifecycle_state := UNMOUNTED \<rparr>)) x)
              \<longrightarrow> is_mounted (h1 x)"
        by simp
      show "count_list [Emit self UNMOUNT] (Emit x UNMOUNT) =
         (if is_mounted (h1 x)
             \<and> \<not> is_mounted ((h1(self := (h1 self)\<lparr> is_mounted := False, lifecycle_state := UNMOUNTED \<rparr>)) x)
          then 1 else 0)"
        using m1 by auto
    next
      show "set [Emit self UNMOUNT] \<subseteq> range (\<lambda>x. Emit x UNMOUNT)" by simp
    qed
    from unmount_step_trans [OF s1 last] res(2) show ?thesis by simp
  qed
qed

lemma for_each_total:
  assumes step: "\<And>x g. x \<in> set xs \<Longrightarrow> (\<And>y. children (g y) = children (h0 y)) \<Longrightarrow>
      \<exists>g' t. body x g = Some (g', t) \<and> (\<forall>y. children (g' y) = children (h0 y))"
  shows "(\<And>y. children (h y) = children (h0 y)) \<Longrightarrow> \<exists>h' t'. for_each body xs (h, t) = Some (h', t')"
  using step
proof (induction xs arbitrary: h t)
  case Nil
  show ?case by simp
next
  case (Cons x xs)
  have "\<exists>g' t. body x h = Some (g', t) \<and> (\<forall>y. children (g' y) = children (h0 y))"
    by (rule Cons.prems(2)) (simp_all add: Cons.prems(1))
  then obtain g' t1 where b: "body x h = Some (g', t1)"
    and c: "\<And>y. children (g' y) = children (h0 y)" by blast
  have "\<exists>h' t'. for_each body xs (g', t @ t1) = Some (h', t')"
    by (rule Cons.IH [OF c]) (rule Cons.prems(2), simp_all)
  with b show ?case by simp
qed

lemma mount_total:
  "get_all_descendants m h r = Some ds \<Longrightarrow> \<exists>h' t. mount m r h = Some (h', t)"
proof (induction m arbitrary: r h ds)
  case 0
  then show ?case by simp
next
  case (Suc m)
  show ?case
  proof (cases "is_mounted (h r)")
    case True
    then show ?thesis by simp
  next
    case False
    let ?h1 = "h(r := (h r)\<lparr> is_mounted := True, lifecycle_state := MOUNTED \<rparr>)"
    have "\<exists>h' t'. for_each (\<lambda>child. mount m child) (children (h r)) (?h1, [Emit r MOUNT]) = Some (h', t')"
    proof (rule for_each_total [where ?h0.0 = h])
      show "\<And>y. children (?h1 y) = children (h y)" by simp
    next
      fix x and g :: heap
      assume x: "x \<in> set (children (h r))" and same: "\<And>y. children (g y) = children (h y)"
      from children_have_descendants [OF Suc.prems x] obtain dk
        where dk: "get_all_descendants m h x = Some dk" by blast
      have "get_all_descendants m g x = get_all_descendants m h x"
        by (rule get_all_descendants_cong) (simp add: same)
      with dk have "get_all_descendants m g x = Some dk" by simp
      from Suc.IH [OF this] obtain g' t where r: "mount m x g = Some (g', t)" by blast
      have "children (g' y) = children (h y)" for y
        using lifecycle_frame_fields(1) [OF mount_frame [OF r]] same by simp
      with r show "\<exists>g' t. mount m x g = Some (g', t) \<and> (\<forall>y. children (g' y) = children (h y))"
        by simp
    qed
    with False show ?thesis by simp
  qed
qed

lemma unmount_total:
  "get_all_descendants m h r = Some ds \<Longrightarrow> \<exists>h' t. unmount m r h = Some (h', t)"
proof (induction m arbitrary: r h ds)
  case 0
  then show ?case by simp
next
  case (Suc m)
  show ?case
  proof (cases "is_mounted (h r)")
    case False
    then show ?thesis by simp
  next
    case True
    have "\<exists>h' t'. for_each (\<lambda>child. unmount m child) (children (h r)) (h, []) = Some (h', t')"
    proof (rule for_each_total [where ?h0.0 = h])
      show "\<And>y. children (h y) = children (h y)" by simp
    next
      fix x and g :: heap
      assume x: "x \<in> set (children (h r))" and same: "\<And>y. children (g y) = children (h y)"
      from children_have_descendants [OF Suc.prems x] obtain dk
        where dk: "get_all_descendants m h x = Some dk" by blast
      have "get_all_descendants m g x = get_all_descendants m h x"
        by (rule get_all_descendants_cong) (simp add: same)
      with dk have "get_all_descendants m g x = Some dk" by simp
      from Suc.IH [OF this] obtain g' t where r: "unmount m x g = Some (g', t)" by blast
      have "children (g' y) = children (h y)" for y
        using lifecycle_frame_fields(1) [OF unmount_frame [OF r]] same by simp
      with r show "\<exists>g' t. unmount m x g = Some (g', t) \<and> (\<forall>y. children (g' y) = children (h y))"
        by simp
    qed
    with True show ?thesis by auto
  qed
qed

text \<open>
  Claim C8. When \<^verbatim>\<open>mount()\<close> has returned, a second \<^verbatim>\<open>mount()\<close> on the same
  component returns at once, emits nothing and leaves the whole store as it is; in the first
  call every component that went from unmounted to mounted emitted \<open>mount\<close> exactly once,
  every other component not at all, and nothing else was emitted. The same holds for
  \<^verbatim>\<open>unmount()\<close> and the event \<open>unmount\<close>. On a finite tree both methods return.
\<close>

theorem mount_unmount_idempotent:
  "(get_all_descendants k h self = Some ds \<longrightarrow>
      (\<exists>h' t. mount k self h = Some (h', t)) \<and> (\<exists>h' t. unmount k self h = Some (h', t)))
   \<and> (mount n self h = Some (h1, t1) \<longrightarrow>
      mount (Suc m) self h1 = Some (h1, [])
      \<and> (\<forall>x. count_list t1 (Emit x MOUNT) = (if \<not> is_mounted (h x) \<and> is_mounted (h1 x) then 1 else 0))
      \<and> set t1 \<subseteq> range (\<lambda>x. Emit x MOUNT))
   \<and> (unmount n self h = Some (h2, t2) \<longrightarrow>
      unmount (Suc m) self h2 = Some (h2, [])
      \<and> (\<forall>x. count_list t2 (Emit x UNMOUNT) = (if is_mounted (h x) \<and> \<not> is_mounted (h2 x) then 1 else 0))
      \<and> set t2 \<subseteq> range (\<lambda>x. Emit x UNMOUNT))"
proof (intro conjI impI)
  assume d: "get_all_descendants k h self = Some ds"
  show "\<exists>h' t. mount k self h = Some (h', t)" by (rule mount_total [OF d])
  show "\<exists>h' t. unmount k self h = Some (h', t)" by (rule unmount_total [OF d])
next
  assume a: "mount n self h = Some (h1, t1)"
  have "is_mounted (h1 self)"
    by (rule mount_mounts [OF a])
  then show "mount (Suc m) self h1 = Some (h1, [])" by simp
  show "\<forall>x. count_list t1 (Emit x MOUNT) = (if \<not> is_mounted (h x) \<and> is_mounted (h1 x) then 1 else 0)"
    using mount_step_mount [OF a] by (simp add: mount_step_def)
  show "set t1 \<subseteq> range (\<lambda>x. Emit x MOUNT)"
    using mount_step_mount [OF a] by (simp add: mount_step_def)
next
  assume a: "unmount n self h = Some (h2, t2)"
  show "unmount (Suc m) self h2 = Some (h2, [])"
    using unmount_unmounts [OF a] by simp
  show "\<forall>x. count_list t2 (Emit x UNMOUNT) = (if is_mounted (h x) \<and> \<not> is_mounted (h2 x) then 1 else 0)"
    using unmount_step_unmount [OF a] by (simp add: unmount_step_def)
  show "set t2 \<subseteq> range (\<lambda>x. Emit x UNMOUNT)"
    using unmount_step_unmount [OF a] by (simp add: unmount_step_def)
qed

text \<open>Mounting and unmounting the family at 0, each twice.\<close>

theorem mount_unmount_idempotent_witness:
  "get_all_descendants 2 family 0 = Some [1]
   \<and> get_all_descendants 2 mounted_family 0 = Some [1]
   \<and> mount 2 0 family = Some (mounted_family, [Emit 0 MOUNT, Emit 1 MOUNT])
   \<and> mount 1 0 mounted_family = Some (mounted_family, [])
   \<and> unmount 2 0 mounted_family = Some (unmounted_family, [Emit 1 UNMOUNT, Emit 0 UNMOUNT])
   \<and> unmount 1 0 unmounted_family = Some (unmounted_family, [])"
proof -
  have n: "(2::nat) = Suc (Suc 0)" "(1::nat) = Suc 0" by simp_all
  have d: "get_all_descendants 2 family 0 = Some [1]"
    "get_all_descendants 2 mounted_family 0 = Some [1]"
    by (simp_all add: n mounted_family_def family_def fresh_heap_def Component_init_def)
  have a: "mount 2 0 family = Some (mounted_family, [Emit 0 MOUNT, Emit 1 MOUNT])"
    by (simp add: n mounted_family_def family_def fresh_heap_def Component_init_def)
  have b: "unmount 2 0 mounted_family = Some (unmounted_family, [Emit 1 UNMOUNT, Emit 0 UNMOUNT])"
    by (simp add: n unmounted_family_def mounted_family_def family_def fresh_heap_def Component_init_def)
  note i = mount_unmount_idempotent [where m = 0]
  have "mount 1 0 mounted_family = Some (mounted_family, [])"
    using i [THEN conjunct2, THEN conjunct1, rule_format, OF a] by (simp add: n)
  moreover have "unmount 1 0 unmounted_family = Some (unmounted_family, [])"
    using i [THEN conjunct2, THEN conjunct2, rule_format, OF b] by (simp add: n)
  moreover have "\<exists>h' t. mount 2 0 family = Some (h', t)"
    using i [THEN conjunct1, rule_format, OF d(1)] by simp
  ultimately show ?thesis
    using a b d by simp
qed

section \<open>Event propagation\<close>

lemma spec_offered_Cons:
  "spec_offered R (k # ks) = (if R k then [k] else k # spec_offered R ks)"
  by (simp add: spec_offered_def)

lemma propagate_spec:
  assumes R: "\<And>k. R k = (case offer k of None \<Rightarrow> False | Some (handled, t) \<Rightarrow> handled)"
  shows "propagate h offer ks = Some (b, t) \<Longrightarrow>
     b = list_ex R (filter (\<lambda>k. is_visible (h k)) ks)
     \<and> t = concat (map (\<lambda>k. snd (the (offer k)))
              (spec_offered R (filter (\<lambda>k. is_visible (h k)) ks)))"
proof (induction ks arbitrary: b t)
  case Nil
  then show ?case by (simp add: spec_offered_def)
next
  case (Cons k ks)
  show ?case
  proof (cases "is_visible (h k)")
    case False
    with Cons show ?thesis by simp
  next
    case True
    from Cons.prems True obtain handled t0 where o: "offer k = Some (handled, t0)"
      by (auto split: option.splits)
    have Rk: "R k = handled" by (simp add: R o)
    have f: "filter (\<lambda>k. is_visible (h k)) (k # ks) = k # filter (\<lambda>k. is_visible (h k)) ks"
      using True by simp
    show ?thesis
    proof (cases handled)
      case True
      from Cons.prems \<open>is_visible (h k)\<close> o True have bt: "b = True" "t = t0" by simp_all
      show ?thesis
        unfolding f spec_offered_Cons using Rk True o bt by simp
    next
      case False
      with Cons.prems \<open>is_visible (h k)\<close> o obtain b' t' where
        r: "propagate h offer ks = Some (b', t')" and bt: "b = b'" "t = t0 @ t'"
        by (auto split: option.splits)
      show ?thesis
        unfolding f spec_offered_Cons using Cons.IH [OF r] bt o False Rk by simp
    qed
  qed
qed

lemma propagate_total:
  "(\<And>k. k \<in> set ks \<Longrightarrow> \<exists>b t. offer k = Some (b, t)) \<Longrightarrow> \<exists>b t. propagate h offer ks = Some (b, t)"
proof (induction ks)
  case Nil
  have "propagate h offer [] = Some (False, [])" by simp
  then show ?case by blast
next
  case (Cons k ks)
  from Cons.prems [of k] obtain b t where o: "offer k = Some (b, t)" by auto
  have "\<exists>b t. propagate h offer ks = Some (b, t)"
    by (rule Cons.IH) (rule Cons.prems, simp)
  then obtain b' t' where "propagate h offer ks = Some (b', t')" by blast
  with o show ?case by auto
qed

lemma Container_handle_event_with_total:
  assumes "\<And>k. k \<in> set (children (h self)) \<Longrightarrow> \<exists>b t. offer k = Some (b, t)"
  shows "\<exists>b t. Container_handle_event_with offer h self event_name = Some (b, t)"
proof -
  have "\<exists>b t. propagate h offer (rev (children (h self))) = Some (b, t)"
    by (rule propagate_total) (rule assms, simp)
  then obtain b t where "propagate h offer (rev (children (h self))) = Some (b, t)" by blast
  then show ?thesis
    by (simp add: Container_handle_event_with_def split: prod.splits)
qed

lemma handle_event_total:
  "get_all_descendants m h r = Some ds \<Longrightarrow> \<exists>b t. handle_event m h r event_name = Some (b, t)"
proof (induction m arbitrary: r ds)
  case 0
  then show ?case by simp
next
  case (Suc m)
  have "\<exists>b t. Container_handle_event_with (\<lambda>child. handle_event m h child event_name) h r event_name
          = Some (b, t)"
  proof (rule Container_handle_event_with_total)
    fix k assume "k \<in> set (children (h r))"
    from children_have_descendants [OF Suc.prems this] obtain dk
      where "get_all_descendants m h k = Some dk" by blast
    then show "\<exists>b t. handle_event m h k event_name = Some (b, t)" by (rule Suc.IH)
  qed
  then show ?case
    by (cases "cls (h r)") (auto simp: Component_handle_event_def)
qed

lemma Container_handle_event_total:
  assumes "get_all_descendants (Suc n) h self = Some ds"
  shows "\<exists>b t. Container_handle_event n h self event_name = Some (b, t)"
  unfolding Container_handle_event_def
proof (rule Container_handle_event_with_total)
  fix k assume "k \<in> set (children (h self))"
  from children_have_descendants [OF assms this] obtain dk
    where "get_all_descendants n h k = Some dk" by blast
  then show "\<exists>b t. handle_event n h k event_name = Some (b, t)" by (rule handle_event_total)
qed

text \<open>
  Claim C4. \<^verbatim>\<open>Container.handle_event\<close> first runs the base behaviour on the container
  (the event is emitted on it, and the base reports it unhandled), then offers the event to the
  visible children in reverse insertion order, up to and including the first child that reports
  handling: the effects are the container's own emission followed by the effects of exactly
  these children, in this order. The result is true exactly when some visible child handles
  the event. On a finite tree the method returns.
\<close>

theorem container_handle_event_order:
  "(get_all_descendants (Suc n) h self = Some ds \<longrightarrow>
      (\<exists>b t. Container_handle_event n h self event_name = Some (b, t)))
   \<and> (Container_handle_event n h self event_name = Some (b, t) \<longrightarrow>
     b = list_ex (handles n h event_name) (rev (filter (\<lambda>k. is_visible (h k)) (children (h self))))
     \<and> t = Emit self event_name #
           concat (map (\<lambda>k. snd (the (handle_event n h k event_name)))
             (spec_offered (handles n h event_name)
                (rev (filter (\<lambda>k. is_visible (h k)) (children (h self)))))))"
proof (intro conjI impI)
  assume "get_all_descendants (Suc n) h self = Some ds"
  then show "\<exists>b t. Container_handle_event n h self event_name = Some (b, t)"
    by (rule Container_handle_event_total)
next
  assume a: "Container_handle_event n h self event_name = Some (b, t)"
  then obtain t' where p: "propagate h (\<lambda>child. handle_event n h child event_name) (rev (children (h self))) = Some (b, t')"
    and t: "t = Emit self event_name # t'"
    by (auto simp: Container_handle_event_def Container_handle_event_with_def Component_handle_event_def
        split: option.splits)
  have r: "b = list_ex (handles n h event_name) (filter (\<lambda>k. is_visible (h k)) (rev (children (h self))))
     \<and> t' = concat (map (\<lambda>k. snd (the (handle_event n h k event_name)))
              (spec_offered (handles n h event_name) (filter (\<lambda>k. is_visible (h k)) (rev (children (h self))))))"
    by (rule propagate_spec [OF _ p]) (simp add: handles_def)
  from r show "b = list_ex (handles n h event_name) (rev (filter (\<lambda>k. is_visible (h k)) (children (h self))))"
    by (simp add: rev_filter)
  from r t show "t = Emit self event_name #
           concat (map (\<lambda>k. snd (the (handle_event n h k event_name)))
             (spec_offered (handles n h event_name)
                (rev (filter (\<lambda>k. is_visible (h k)) (children (h self))))))"
    by (simp add: rev_filter)
qed

text \<open>
  On the panel, \<open>click\<close> is offered to 2 only (3 is invisible, 2 consumes it, 1 is never
  asked); \<open>key\<close> is offered to 2 and then to 1, and nobody handles it.
\<close>

theorem container_handle_event_order_witness:
  "get_all_descendants 2 panel 0 = Some [1, 2, 3]
   \<and> Container_handle_event 1 panel 0 ''click'' = Some (True, [Emit 0 ''click'', Consumed 2 ''click''])
   \<and> Container_handle_event 1 panel 0 ''key'' = Some (False, [Emit 0 ''key'', Emit 2 ''key'', Emit 1 ''key''])
   \<and> spec_offered (handles 1 panel ''click'') (rev (filter (\<lambda>k. is_visible (panel k)) (children (panel 0)))) = [2]
   \<and> spec_offered (handles 1 panel ''key'') (rev (filter (\<lambda>k. is_visible (panel k)) (children (panel 0)))) = [2, 1]"
proof -
  have one: "(1::nat) = Suc 0" "(2::nat) = Suc (Suc 0)" by simp_all
  have g: "get_all_descendants 2 panel 0 = Some [1, 2, 3]"
    by (simp add: one panel_def fresh_heap_def Component_init_def Container_init_def)
  have a: "Container_handle_event 1 panel 0 ''click'' = Some (True, [Emit 0 ''click'', Consumed 2 ''click''])"
    by (simp add: one Container_handle_event_def Container_handle_event_with_def Component_handle_event_def
        panel_def fresh_heap_def Component_init_def Container_init_def)
  have b: "Container_handle_event 1 panel 0 ''key'' = Some (False, [Emit 0 ''key'', Emit 2 ''key'', Emit 1 ''key''])"
    by (simp add: one Container_handle_event_def Container_handle_event_with_def Component_handle_event_def
        panel_def fresh_heap_def Component_init_def Container_init_def)
  have c: "spec_offered (handles 1 panel ''click'') (rev (filter (\<lambda>k. is_visible (panel k)) (children (panel 0)))) = [2]"
    by (simp add: one spec_offered_def handles_def Component_handle_event_def
        panel_def fresh_heap_def Component_init_def Container_init_def)
  have d: "spec_offered (handles 1 panel ''key'') (rev (filter (\<lambda>k. is_visible (panel k)) (children (panel 0)))) = [2, 1]"
    by (simp add: one spec_offered_def handles_def Component_handle_event_def
        panel_def fresh_heap_def Component_init_def Container_init_def)
  have g': "get_all_descendants (Suc 1) panel 0 = Some [1, 2, 3]"
    using g by (simp add: one)
  note r = container_handle_event_order [THEN conjunct1, rule_format, OF g', of "''click''"]
    container_handle_event_order [THEN conjunct2, rule_format, OF a]
    container_handle_event_order [THEN conjunct2, rule_format, OF b]
  show ?thesis
    using a b c d g r by simp
qed

section \<open>Uniqueness of identifiers\<close>

lemma first_found_None:
  "first_found f ks = Some None \<Longrightarrow> k \<in> set ks \<Longrightarrow> f k = Some None"
  by (induction ks) (auto split: option.splits)

lemma find_by_id_None:
  "find_by_id n h r i = Some None \<Longrightarrow> (r, x) \<in> (child_rel h)\<^sup>* \<Longrightarrow> comp_id (h x) \<noteq> Some i"
proof (induction n arbitrary: r)
  case 0
  then show ?case by simp
next
  case (Suc n)
  from Suc.prems(1) have here: "comp_id (h r) \<noteq> Some i"
    and ff: "first_found (\<lambda>child. find_by_id n h child i) (children (h r)) = Some None"
    by (auto split: if_splits)
  from Suc.prems(2) show ?case
  proof (cases rule: converse_rtranclE)
    case base
    with here show ?thesis by simp
  next
    case (step k)
    then have "k \<in> set (children (h r))" by (simp add: child_rel_def)
    from first_found_None [OF ff this] have "find_by_id n h k i = Some None" .
    from Suc.IH [OF this step(2)] show ?thesis .
  qed
qed

lemma trancl_children:
  "{x. (r, x) \<in> (child_rel h)\<^sup>+}
     = set (children (h r)) \<union> (\<Union>k\<in>set (children (h r)). {x. (k, x) \<in> (child_rel h)\<^sup>+})"
proof (intro set_eqI iffI)
  fix x
  assume "x \<in> {x. (r, x) \<in> (child_rel h)\<^sup>+}"
  then have "(r, x) \<in> (child_rel h)\<^sup>+" by simp
  then obtain k where k: "(r, k) \<in> child_rel h" "(k, x) \<in> (child_rel h)\<^sup>*"
    by (blast dest: tranclD)
  from k(2) have "k = x \<or> (k, x) \<in> (child_rel h)\<^sup>+" by (auto simp: rtrancl_eq_or_trancl)
  with k(1) show "x \<in> set (children (h r)) \<union> (\<Union>k\<in>set (children (h r)). {x. (k, x) \<in> (child_rel h)\<^sup>+})"
    by (auto simp: child_rel_def)
next
  fix x
  assume "x \<in> set (children (h r)) \<union> (\<Union>k\<in>set (children (h r)). {x. (k, x) \<in> (child_rel h)\<^sup>+})"
  then consider "(r, x) \<in> child_rel h"
    | k where "(r, k) \<in> child_rel h" "(k, x) \<in> (child_rel h)\<^sup>+"
    by (auto simp: child_rel_def)
  then show "x \<in> {x. (r, x) \<in> (child_rel h)\<^sup>+}"
  proof cases
    case 1
    then show ?thesis by auto
  next
    case 2
    then show ?thesis by (auto intro: trancl_into_trancl2)
  qed
qed

lemma descendants_set:
  "get_all_descendants n h r = Some ds \<Longrightarrow> set ds = {x. (r, x) \<in> (child_rel h)\<^sup>+}"
proof (induction n arbitrary: r ds)
  case 0
  then show ?case by simp
next
  case (Suc n)
  from Suc.prems have c: "collect (\<lambda>child. get_all_descendants n h child) (children (h r)) = Some ds"
    by simp
  from collect_set [OF c] have s: "set ds = set (children (h r))
      \<union> (\<Union>k\<in>set (children (h r)). set (the (get_all_descendants n h k)))"
    and d: "\<forall>k\<in>set (children (h r)). get_all_descendants n h k \<noteq> None"
    by simp_all
  have "set (the (get_all_descendants n h k)) = {x. (k, x) \<in> (child_rel h)\<^sup>+}"
    if "k \<in> set (children (h r))" for k
  proof -
    from d that obtain dk where dk: "get_all_descendants n h k = Some dk" by auto
    from Suc.IH [OF dk] dk show ?thesis by simp
  qed
  with s have "set ds = set (children (h r)) \<union> (\<Union>k\<in>set (children (h r)). {x. (k, x) \<in> (child_rel h)\<^sup>+})"
    by simp
  then show ?case by (simp only: trancl_children [symmetric])
qed

lemma root_Some:
  assumes "consistent h"
  shows "root n h p = Some r \<Longrightarrow> parent (h r) = None \<and> (r, p) \<in> (child_rel h)\<^sup>*"
proof (induction n arbitrary: p)
  case 0
  then show ?case by simp
next
  case (Suc n)
  show ?case
  proof (cases "parent (h p)")
    case None
    with Suc.prems show ?thesis by simp
  next
    case (Some q)
    with Suc.prems have "root n h q = Some r" by simp
    from Suc.IH [OF this] have r: "parent (h r) = None" "(r, q) \<in> (child_rel h)\<^sup>*" by simp_all
    have "(q, p) \<in> child_rel h"
      using assms Some by (simp add: consistent_def child_rel_def)
    with r show ?thesis by (auto intro: rtrancl_into_rtrancl)
  qed
qed

lemma unique_root:
  assumes c: "consistent h"
  shows "(r, p) \<in> (child_rel h)\<^sup>* \<Longrightarrow> (r', p) \<in> (child_rel h)\<^sup>* \<Longrightarrow>
         parent (h r) = None \<Longrightarrow> parent (h r') = None \<Longrightarrow> r = r'"
proof (induction rule: rtrancl_induct)
  case base
  from base(1) show ?case
  proof (cases rule: rtranclE)
    case base
    then show ?thesis by simp
  next
    case (step z)
    then have "parent (h r) = Some z" using c by (simp add: consistent_def child_rel_def)
    with base(2) show ?thesis by simp
  qed
next
  case (step q p)
  from step(2) have pq: "parent (h p) = Some q" using c by (simp add: consistent_def child_rel_def)
  from step(4) show ?case
  proof (cases rule: rtranclE)
    case base
    with pq step(6) show ?thesis by simp
  next
    case (step z)
    then have "parent (h p) = Some z" using c by (simp add: consistent_def child_rel_def)
    with pq have "z = q" by simp
    with step(1) have "(r', q) \<in> (child_rel h)\<^sup>*" by simp
    from \<open>(r', q) \<in> (child_rel h)\<^sup>* \<Longrightarrow> parent (h r) = None \<Longrightarrow> parent (h r') = None \<Longrightarrow> r = r'\<close>
      [OF this] \<open>parent (h r) = None\<close> \<open>parent (h r') = None\<close>
    show ?thesis by simp
  qed
qed

lemma attach_fields:
  "children (attach h p c x) = (if x = p then children (h p) @ [c] else children (h x))"
  "parent (attach h p c x) = (if x = c then Some p else parent (h x))"
  "comp_id (attach h p c x) = comp_id (h x)"
  by (simp_all add: attach_def Let_def)

lemma child_rel_attach: "child_rel (attach h p c) = insert (p, c) (child_rel h)"
  by (auto simp: child_rel_def attach_fields split: if_splits)

lemma consistent_attach:
  assumes "consistent h" "parent (h c) = None"
  shows "consistent (attach h p c)"
  unfolding consistent_def
proof (intro allI)
  fix p' c'
  have old: "(c' \<in> set (children (h p'))) = (parent (h c') = Some p')" for p' c'
    using assms(1) by (simp add: consistent_def)
  have nowhere: "c \<notin> set (children (h p'))" for p'
    using old [of c p'] assms(2) by simp
  show "(c' \<in> set (children (attach h p c p'))) = (parent (attach h p c c') = Some p')"
  proof (cases "c' = c")
    case True
    then show ?thesis using nowhere [of p'] by (auto simp: attach_fields)
  next
    case False
    then show ?thesis using old [of c' p'] old [of c' p] by (auto simp: attach_fields)
  qed
qed

lemma unique_idsD:
  assumes "unique_ids h" "parent (h r) = None" "(r, x) \<in> (child_rel h)\<^sup>*" "(r, y) \<in> (child_rel h)\<^sup>*"
    "x \<noteq> y" "comp_id (h x) \<noteq> None"
  shows "comp_id (h x) \<noteq> comp_id (h y)"
  using assms unfolding unique_ids_def by blast

lemma unique_ids_attach:
  assumes con: "consistent h" and uq: "unique_ids h" and det: "parent (h c) = None"
    and checks: "\<And>x i. (c, x) \<in> (child_rel h)\<^sup>* \<Longrightarrow> comp_id (h x) = Some i \<Longrightarrow>
                   \<exists>rt. root n h p = Some rt \<and> find_by_id n h rt i = Some None"
  shows "unique_ids (attach h p c)"
  unfolding unique_ids_def
proof (intro allI impI)
  fix r x y
  assume r: "parent (attach h p c r) = None"
    and rx: "(r, x) \<in> (child_rel (attach h p c))\<^sup>*"
    and ry: "(r, y) \<in> (child_rel (attach h p c))\<^sup>*"
    and xy: "x \<noteq> y" and idx: "comp_id (attach h p c x) \<noteq> None"
  let ?R = "child_rel h"
  from r have r0: "parent (h r) = None" by (simp add: attach_fields split: if_splits)
  have split: "(r, z) \<in> ?R\<^sup>* \<or> ((r, p) \<in> ?R\<^sup>* \<and> (c, z) \<in> ?R\<^sup>*)"
    if "(r, z) \<in> (child_rel (attach h p c))\<^sup>*" for z
    using that by (auto simp: child_rel_attach rtrancl_insert)
  have absent: "comp_id (h z) \<noteq> Some i"
    if below: "(c, w) \<in> ?R\<^sup>*" and idw: "comp_id (h w) = Some i"
      and rp: "(r, p) \<in> ?R\<^sup>*" and rz: "(r, z) \<in> ?R\<^sup>*" for w z i
  proof -
    from checks [OF below idw] obtain rt where rt: "root n h p = Some rt"
      "find_by_id n h rt i = Some None" by blast
    from root_Some [OF con rt(1)] have "parent (h rt) = None" "(rt, p) \<in> ?R\<^sup>*" by simp_all
    from unique_root [OF con this(2) rp this(1) r0] have "rt = r" .
    with rt(2) find_by_id_None [of n h r i z] rz show ?thesis by simp
  qed
  from idx obtain i where i: "comp_id (h x) = Some i" by (auto simp: attach_fields)
  have "comp_id (h x) \<noteq> comp_id (h y)"
  proof (cases "(r, x) \<in> ?R\<^sup>*")
    case True
    note oldx = this
    show ?thesis
    proof (cases "(r, y) \<in> ?R\<^sup>*")
      case True
      from unique_idsD [OF uq r0 oldx True xy] i show ?thesis by simp
    next
      case False
      with split [OF ry] have rp: "(r, p) \<in> ?R\<^sup>*" and cy: "(c, y) \<in> ?R\<^sup>*" by simp_all
      show ?thesis
      proof
        assume "comp_id (h x) = comp_id (h y)"
        with i have "comp_id (h y) = Some i" by simp
        from absent [OF cy this rp oldx] i show False by simp
      qed
    qed
  next
    case False
    with split [OF rx] have rp: "(r, p) \<in> ?R\<^sup>*" and cx: "(c, x) \<in> ?R\<^sup>*" by simp_all
    show ?thesis
    proof (cases "(r, y) \<in> ?R\<^sup>*")
      case True
      from absent [OF cx i rp True] i show ?thesis by simp
    next
      case False
      with split [OF ry] have cy: "(c, y) \<in> ?R\<^sup>*" by simp
      from unique_idsD [OF uq det cx cy xy] i show ?thesis by simp
    qed
  qed
  then show "comp_id (attach h p c x) \<noteq> comp_id (attach h p c y)"
    by (simp add: attach_fields)
qed

lemma frame_invariants:
  assumes "lifecycle_frame h h'"
  shows "consistent h' = consistent h" "unique_ids h' = unique_ids h"
proof -
  have f: "children (h' x) = children (h x)" "parent (h' x) = parent (h x)"
    "comp_id (h' x) = comp_id (h x)" for x
    using lifecycle_frame_fields [OF assms] by simp_all
  have r: "child_rel h' = child_rel h" by (simp add: child_rel_def f)
  show "consistent h' = consistent h" by (simp add: consistent_def f)
  show "unique_ids h' = unique_ids h" by (simp add: unique_ids_def f r)
qed

lemma check_descendants_None:
  "check_descendants n h p ds = Some None \<Longrightarrow> d \<in> set ds \<Longrightarrow> comp_id (h d) = Some i \<Longrightarrow>
     id_in_tree n h p i = Some False"
  by (induction ds) (auto split: option.splits bool.splits)

lemma id_in_tree_False:
  "id_in_tree n h p i = Some False \<Longrightarrow> \<exists>rt. root n h p = Some rt \<and> find_by_id n h rt i = Some None"
  by (auto simp: id_in_tree_def split: option.splits)

lemma add_child_unfold:
  "add_child n p c h =
     (if c \<in> set (children (h p)) then Some (h, [], None)
      else if comp_name (h c) \<noteq> None
              \<and> list_ex (\<lambda>existing_child. comp_name (h existing_child) = comp_name (h c))
                   (children (h p))
        then Some (h, [], Some (ValueError (the (comp_name (h c)))))
      else
        (case (case comp_id (h c) of None \<Rightarrow> Some False
               | Some ident \<Rightarrow> id_in_tree n h p ident) of
           None \<Rightarrow> None
         | Some True \<Rightarrow> Some (h, [], Some (ValueError (the (comp_id (h c)))))
         | Some False \<Rightarrow>
             (case get_all_descendants n h c of
                None \<Rightarrow> None
              | Some descendants \<Rightarrow>
                  (case check_descendants n h p descendants of
                     None \<Rightarrow> None
                   | Some (Some e) \<Rightarrow> Some (h, [], Some e)
                   | Some None \<Rightarrow>
                       (if is_mounted (attach h p c p) then
                          (case mount n c (attach h p c) of
                             None \<Rightarrow> None
                           | Some (h3, t) \<Rightarrow> Some (h3, t, None))
                        else Some (attach h p c, [], None))))))"
  unfolding add_child_def attach_def Let_def ..

lemma add_child_cases:
  assumes "add_child n p c h = Some (h', t, out)"
  shows "h' = h
    \<or> (\<exists>ds. get_all_descendants n h c = Some ds \<and> check_descendants n h p ds = Some None
          \<and> (\<forall>i. comp_id (h c) = Some i \<longrightarrow> id_in_tree n h p i = Some False)
          \<and> lifecycle_frame (attach h p c) h')"
proof (cases "h' = h")
  case True
  then show ?thesis by simp
next
  case False
  note u = assms [unfolded add_child_unfold]
  from u False have idc: "(case comp_id (h c) of None \<Rightarrow> Some False
        | Some ident \<Rightarrow> id_in_tree n h p ident) = Some False"
    by (simp split: if_splits option.splits bool.splits)
  from u False obtain ds where ds: "get_all_descendants n h c = Some ds"
    by (simp split: if_splits option.splits bool.splits)
  from u False ds have cd: "check_descendants n h p ds = Some None"
    by (simp split: if_splits option.splits bool.splits)
  from u False idc ds cd have res:
    "(if is_mounted (attach h p c p)
      then (case mount n c (attach h p c) of None \<Rightarrow> None | Some (h3, t3) \<Rightarrow> Some (h3, t3, None))
      else Some (attach h p c, [], None)) = Some (h', t, out)"
    by (simp split: if_splits)
  have "lifecycle_frame (attach h p c) h'"
  proof (cases "is_mounted (attach h p c p)")
    case True
    with res obtain t3 where "mount n c (attach h p c) = Some (h', t3)"
      by (auto split: option.splits)
    then show ?thesis by (rule mount_frame)
  next
    case False
    with res show ?thesis by (simp add: lifecycle_frame_refl)
  qed
  moreover have "\<forall>i. comp_id (h c) = Some i \<longrightarrow> id_in_tree n h p i = Some False"
    using idc by (auto split: option.splits)
  ultimately show ?thesis using ds cd by blast
qed

lemma add_child_invariants:
  assumes con: "consistent h" and uq: "unique_ids h" and det: "parent (h c) = None"
    and a: "add_child n p c h = Some (h', t, out)"
  shows "consistent h' \<and> unique_ids h'"
proof -
  from add_child_cases [OF a] show ?thesis
  proof
    assume "h' = h"
    with con uq show ?thesis by simp
  next
    assume "\<exists>ds. get_all_descendants n h c = Some ds \<and> check_descendants n h p ds = Some None
          \<and> (\<forall>i. comp_id (h c) = Some i \<longrightarrow> id_in_tree n h p i = Some False)
          \<and> lifecycle_frame (attach h p c) h'"
    then obtain ds where ds: "get_all_descendants n h c = Some ds"
      and cd: "check_descendants n h p ds = Some None"
      and idc: "\<And>i. comp_id (h c) = Some i \<Longrightarrow> id_in_tree n h p i = Some False"
      and fr: "lifecycle_frame (attach h p c) h'"
      by blast
    have checks: "\<exists>rt. root n h p = Some rt \<and> find_by_id n h rt i = Some None"
      if below: "(c, x) \<in> (child_rel h)\<^sup>*" and idx: "comp_id (h x) = Some i" for x i
    proof -
      from below have "x = c \<or> (c, x) \<in> (child_rel h)\<^sup>+" by (auto simp: rtrancl_eq_or_trancl)
      then have "id_in_tree n h p i = Some False"
      proof
        assume "x = c"
        with idc idx show ?thesis by simp
      next
        assume "(c, x) \<in> (child_rel h)\<^sup>+"
        with descendants_set [OF ds] have "x \<in> set ds" by simp
        from check_descendants_None [OF cd this idx] show ?thesis .
      qed
      then show ?thesis by (rule id_in_tree_False)
    qed
    have "consistent (attach h p c)" by (rule consistent_attach [OF con det])
    moreover have "unique_ids (attach h p c)"
      by (rule unique_ids_attach [OF con uq det checks])
    ultimately show ?thesis using frame_invariants [OF fr] by simp
  qed
qed

lemma run_invariants:
  "consistent h \<Longrightarrow> unique_ids h \<Longrightarrow> attaches_detached n calls h \<Longrightarrow>
   run_add_child n calls h = Some (h', outs) \<Longrightarrow> consistent h' \<and> unique_ids h'"
proof (induction calls arbitrary: h outs)
  case Nil
  then show ?case by simp
next
  case (Cons call calls)
  obtain p c where call: "call = (p, c)" by (cases call)
  from Cons.prems(4) obtain h1 t1 out1 where a: "add_child n p c h = Some (h1, t1, out1)"
    by (auto simp: call split: option.splits)
  from Cons.prems(4) a obtain outs1 where r: "run_add_child n calls h1 = Some (h', outs1)"
    by (auto simp: call split: option.splits)
  from Cons.prems(3) a have det: "parent (h c) = None" and rest: "attaches_detached n calls h1"
    by (simp_all add: call)
  from add_child_invariants [OF Cons.prems(1,2) det a]
  have "consistent h1" "unique_ids h1" by simp_all
  from Cons.IH [OF this rest r] show ?case .
qed

text \<open>
  Claim C1, as amended. Start from components as the constructor returns them (no parent, no
  children) and run any sequence of \<^verbatim>\<open>add_child\<close> calls in which every call attaches a
  component that has no parent at the time of the call. Then in the final store no two
  different components among a parentless component and its descendants share an identifier
  (other than \<^verbatim>\<open>None\<close>).
\<close>

theorem ids_unique_when_children_detached:
  assumes "\<forall>r. parent (h0 r) = None \<and> children (h0 r) = []"
    and "run_add_child n calls h0 = Some (h, outs)"
    and "attaches_detached n calls h0"
    and "parent (h r) = None"
    and "get_all_descendants m h r = Some ds"
    and "x \<in> set (r # ds)" and "y \<in> set (r # ds)" and "x \<noteq> y"
    and "comp_id (h x) \<noteq> None"
  shows "comp_id (h x) \<noteq> comp_id (h y)"
proof -
  have p0: "parent (h0 z) = None" and c0: "children (h0 z) = []" for z
    using assms(1) by simp_all
  have e: "child_rel h0 = {}" unfolding child_rel_def by (simp add: c0)
  have con0: "consistent h0" unfolding consistent_def by (simp add: c0 p0)
  have uq0: "unique_ids h0" unfolding unique_ids_def e by simp
  from run_invariants [OF con0 uq0 assms(3) assms(2)] have uq: "unique_ids h" by simp
  have reach: "(r, z) \<in> (child_rel h)\<^sup>*" if "z \<in> set (r # ds)" for z
  proof (cases "z = r")
    case True
    then show ?thesis by simp
  next
    case False
    with that have "z \<in> set ds" by simp
    with descendants_set [OF assms(5)] have "(r, z) \<in> (child_rel h)\<^sup>+" by simp
    then show ?thesis by (rule trancl_into_rtrancl)
  qed
  show ?thesis
    by (rule unique_idsD [OF uq assms(4) reach [OF assms(6)] reach [OF assms(7)] assms(8) assms(9)])
qed

text \<open>
  On the components of \<open>two_roots\<close>: 2 and then 1 are attached below 0, and 3 is refused
  because its identifier is the one of 0.
\<close>

theorem ids_unique_when_children_detached_witness:
  "(\<forall>r. parent (two_roots r) = None \<and> children (two_roots r) = [])
   \<and> map_option snd (run_add_child 3 [(0, 2), (2, 1), (0, 3)] two_roots)
       = Some [None, None, Some (ValueError ''y'')]
   \<and> attaches_detached 3 [(0, 2), (2, 1), (0, 3)] two_roots
   \<and> parent (grown 0) = None
   \<and> get_all_descendants 3 grown 0 = Some [2, 1]
   \<and> comp_id (grown 0) = Some ''y''
   \<and> comp_id (grown 0) \<noteq> comp_id (grown 1)"
proof -
  have three: "(3::nat) = Suc (Suc (Suc 0))" by simp
  have fresh: "\<forall>r. parent (two_roots r) = None \<and> children (two_roots r) = []"
    by (simp add: two_roots_def fresh_heap_def Component_init_def)
  have run: "run_add_child 3 [(0, 2), (2, 1), (0, 3)] two_roots
      = Some (grown, [None, None, Some (ValueError ''y'')])"
    unfolding grown_def
    by (simp add: three add_child_def id_in_tree_def two_roots_def fresh_heap_def Component_init_def)
  have det: "attaches_detached 3 [(0, 2), (2, 1), (0, 3)] two_roots"
    by (simp add: three add_child_def id_in_tree_def two_roots_def fresh_heap_def Component_init_def)
  have g: "parent (grown 0) = None" "comp_id (grown 0) = Some ''y''"
    "comp_id (grown 1) = None"
    unfolding grown_def
    by (simp_all add: three add_child_def id_in_tree_def two_roots_def fresh_heap_def Component_init_def)
  have ds: "get_all_descendants 3 grown 0 = Some [2, 1]"
    unfolding grown_def
    by (simp add: three add_child_def id_in_tree_def two_roots_def fresh_heap_def Component_init_def)
  have "comp_id (grown 0) \<noteq> comp_id (grown 1)"
    by (rule ids_unique_when_children_detached [OF fresh run det g(1) ds]) (simp_all add: g)
  with fresh run det g ds show ?thesis by simp
qed

text \<open>
  Claim C1 as stated fails. \<^verbatim>\<open>add_child\<close> does not look at the parent the child already
  has: component 2 is attached below 0 and then below 1, so its root becomes 1. Component 3
  carries the identifier of 0; attaching it below 2 is checked against the tree of 1 only and
  accepted. No call raised, 0 has no parent, and 0 and its descendant 3 share the identifier.
\<close>

theorem shared_child_duplicates_id:
  "(\<forall>r. parent (two_roots r) = None \<and> children (two_roots r) = [])
   \<and> map_option snd (run_add_child 3 [(0, 2), (1, 2), (2, 3)] two_roots) = Some [None, None, None]
   \<and> parent (shared_child 0) = None
   \<and> get_all_descendants 3 shared_child 0 = Some [2, 3]
   \<and> comp_id (shared_child 0) = Some ''y''
   \<and> comp_id (shared_child 3) = Some ''y''"
proof -
  have three: "(3::nat) = Suc (Suc (Suc 0))" by simp
  have fresh: "\<forall>r. parent (two_roots r) = None \<and> children (two_roots r) = []"
    by (simp add: two_roots_def fresh_heap_def Component_init_def)
  have run: "map_option snd (run_add_child 3 [(0, 2), (1, 2), (2, 3)] two_roots) = Some [None, None, None]"
    by (simp add: three add_child_def id_in_tree_def two_roots_def fresh_heap_def Component_init_def)
  have g: "parent (shared_child 0) = None" "comp_id (shared_child 0) = Some ''y''"
    "comp_id (shared_child 3) = Some ''y''"
    unfolding shared_child_def
    by (simp_all add: three add_child_def id_in_tree_def two_roots_def fresh_heap_def Component_init_def)
  have ds: "get_all_descendants 3 shared_child 0 = Some [2, 3]"
    unfolding shared_child_def
    by (simp add: three add_child_def id_in_tree_def two_roots_def fresh_heap_def Component_init_def)
  from fresh run g ds show ?thesis by simp
qed

section \<open>Layout\<close>

lemma geometry_frameD:
  assumes "geometry_frame D h h'"
  shows "h' x = (h x)\<lparr> position := position (h' x), size_hw := size_hw (h' x),
                         lifecycle_state := lifecycle_state (h' x) \<rparr>"
    and "x \<notin> D \<Longrightarrow> position (h' x) = position (h x)"
    and "x \<notin> D \<Longrightarrow> size_hw (h' x) = size_hw (h x)"
  using assms unfolding geometry_frame_def by blast+

lemma geometry_frame_fields:
  assumes "geometry_frame D h h'"
  shows "children (h' x) = children (h x)" "is_visible (h' x) = is_visible (h x)"
    "is_mounted (h' x) = is_mounted (h x)" "cls (h' x) = cls (h x)"
    "layout_direction (h' x) = layout_direction (h x)" "layout_spacing (h' x) = layout_spacing (h x)"
proof -
  note e = geometry_frameD(1) [OF assms, of x]
  show "children (h' x) = children (h x)" by (subst e) simp
  show "is_visible (h' x) = is_visible (h x)" by (subst e) simp
  show "is_mounted (h' x) = is_mounted (h x)" by (subst e) simp
  show "cls (h' x) = cls (h x)" by (subst e) simp
  show "layout_direction (h' x) = layout_direction (h x)" by (subst e) simp
  show "layout_spacing (h' x) = layout_spacing (h x)" by (subst e) simp
qed

lemma geometry_frame_child_rel:
  "geometry_frame D h h' \<Longrightarrow> child_rel h' = child_rel h"
  by (simp add: child_rel_def geometry_frame_fields(1))

lemma geometry_frame_refl: "geometry_frame D h h"
  unfolding geometry_frame_def by simp

lemma geometry_frame_mono:
  assumes "geometry_frame D h h'" "D \<subseteq> E"
  shows "geometry_frame E h h'"
  unfolding geometry_frame_def
proof (intro conjI allI impI)
  fix x
  show "h' x = (h x)\<lparr> position := position (h' x), size_hw := size_hw (h' x),
                         lifecycle_state := lifecycle_state (h' x) \<rparr>"
    by (rule geometry_frameD(1) [OF assms(1)])
next
  fix x assume "x \<notin> E"
  with assms(2) have "x \<notin> D" by blast
  then show "position (h' x) = position (h x)" "size_hw (h' x) = size_hw (h x)"
    using geometry_frameD(2,3) [OF assms(1)] by simp_all
qed

lemma geometry_frame_trans:
  assumes "geometry_frame D h h1" "geometry_frame D h1 h2"
  shows "geometry_frame D h h2"
  unfolding geometry_frame_def
proof (intro conjI allI impI)
  fix x
  note a = geometry_frameD(1) [OF assms(1), of x]
  note b = geometry_frameD(1) [OF assms(2), of x]
  show "h2 x = (h x)\<lparr> position := position (h2 x), size_hw := size_hw (h2 x),
                         lifecycle_state := lifecycle_state (h2 x) \<rparr>"
    by (subst b, subst a) simp
next
  fix x assume x: "x \<notin> D"
  show "position (h2 x) = position (h x)" "size_hw (h2 x) = size_hw (h x)"
    using geometry_frameD(2,3) [OF assms(1) x] geometry_frameD(2,3) [OF assms(2) x] by simp_all
qed

lemma geometry_frame_position: "geometry_frame {k} h (h(k := (h k)\<lparr> position := v \<rparr>))"
  unfolding geometry_frame_def by simp

lemma geometry_frame_size: "geometry_frame {k} h (h(k := (h k)\<lparr> size_hw := v \<rparr>))"
  unfolding geometry_frame_def by simp

lemma geometry_frame_lifecycle: "geometry_frame {} h (h(k := (h k)\<lparr> lifecycle_state := s \<rparr>))"
  unfolding geometry_frame_def by simp

lemma Component_update_frame:
  "Component_update n r h = Some (h', t) \<Longrightarrow> geometry_frame {} h h'"
  by (auto simp: Component_update_def Let_def geometry_frame_lifecycle geometry_frame_refl
      split: if_splits option.splits)

text \<open>The components strictly below a component.\<close>

lemma below_child:
  "k \<in> set (children (h r)) \<Longrightarrow>
     insert k {x. (k, x) \<in> (child_rel h)\<^sup>+} \<subseteq> {x. (r, x) \<in> (child_rel h)\<^sup>+}"
  by (auto simp: child_rel_def intro: trancl_into_trancl2)

lemma set_position_with_frame:
  assumes upd: "\<And>k g g' t. upd k g = Some (g', t) \<Longrightarrow> geometry_frame {x. (k, x) \<in> (child_rel g)\<^sup>+} g g'"
    and s: "set_position_with upd k v h = Some (h', t)"
  shows "geometry_frame {x. (k, x) \<in> (child_rel h)\<^sup>+} (h(k := (h k)\<lparr> position := v \<rparr>)) h'"
proof -
  let ?h1 = "h(k := (h k)\<lparr> position := v \<rparr>)"
  have r: "child_rel ?h1 = child_rel h"
    by (rule geometry_frame_child_rel [OF geometry_frame_position])
  show ?thesis
  proof (cases "is_mounted (?h1 k)")
    case True
    with s have "upd k ?h1 = Some (h', t)" by (simp add: set_position_with_def Let_def)
    from upd [OF this] show ?thesis by (simp only: r)
  next
    case False
    with s have "h' = ?h1" by (simp add: set_position_with_def Let_def)
    then show ?thesis by (simp add: geometry_frame_refl)
  qed
qed

lemma set_size_with_frame:
  assumes upd: "\<And>k g g' t. upd k g = Some (g', t) \<Longrightarrow> geometry_frame {x. (k, x) \<in> (child_rel g)\<^sup>+} g g'"
    and s: "set_size_with upd k v h = Some (h', t)"
  shows "geometry_frame {x. (k, x) \<in> (child_rel h)\<^sup>+} (h(k := (h k)\<lparr> size_hw := v \<rparr>)) h'"
proof -
  let ?h1 = "h(k := (h k)\<lparr> size_hw := v \<rparr>)"
  have r: "child_rel ?h1 = child_rel h"
    by (rule geometry_frame_child_rel [OF geometry_frame_size])
  show ?thesis
  proof (cases "is_mounted (?h1 k)")
    case True
    with s have "upd k ?h1 = Some (h', t)" by (simp add: set_size_with_def Let_def)
    from upd [OF this] show ?thesis by (simp only: r)
  next
    case False
    with s have "h' = ?h1" by (simp add: set_size_with_def Let_def)
    then show ?thesis by (simp add: geometry_frame_refl)
  qed
qed

lemma setters_below:
  assumes upd: "\<And>k g g' t. upd k g = Some (g', t) \<Longrightarrow> geometry_frame {x. (k, x) \<in> (child_rel g)\<^sup>+} g g'"
  shows "set_position_with upd k v h = Some (h', t) \<Longrightarrow>
           geometry_frame (insert k {x. (k, x) \<in> (child_rel h)\<^sup>+}) h h'"
    and "set_size_with upd k v h = Some (h', t) \<Longrightarrow>
           geometry_frame (insert k {x. (k, x) \<in> (child_rel h)\<^sup>+}) h h'"
proof -
  let ?D = "insert k {x. (k, x) \<in> (child_rel h)\<^sup>+}"
  assume s: "set_position_with upd k v h = Some (h', t)"
  have "geometry_frame ?D h (h(k := (h k)\<lparr> position := v \<rparr>))"
    by (rule geometry_frame_mono [OF geometry_frame_position]) simp
  moreover have "geometry_frame ?D (h(k := (h k)\<lparr> position := v \<rparr>)) h'"
    by (rule geometry_frame_mono [OF set_position_with_frame [OF upd s]]) auto
  ultimately show "geometry_frame ?D h h'" by (rule geometry_frame_trans)
next
  let ?D = "insert k {x. (k, x) \<in> (child_rel h)\<^sup>+}"
  assume s: "set_size_with upd k v h = Some (h', t)"
  have "geometry_frame ?D h (h(k := (h k)\<lparr> size_hw := v \<rparr>))"
    by (rule geometry_frame_mono [OF geometry_frame_size]) simp
  moreover have "geometry_frame ?D (h(k := (h k)\<lparr> size_hw := v \<rparr>)) h'"
    by (rule geometry_frame_mono [OF set_size_with_frame [OF upd s]]) auto
  ultimately show "geometry_frame ?D h h'" by (rule geometry_frame_trans)
qed

lemma layout_vertical_frame:
  assumes upd: "\<And>k g g' t. upd k g = Some (g', t) \<Longrightarrow> geometry_frame {x. (k, x) \<in> (child_rel g)\<^sup>+} g g'"
  shows "layout_vertical upd self ks sx cw hp cur (h, t) = Some (h', t') \<Longrightarrow>
         set ks \<subseteq> set (children (h self)) \<Longrightarrow>
         geometry_frame {x. (self, x) \<in> (child_rel h)\<^sup>+} h h'"
proof (induction ks arbitrary: h t cur)
  case Nil
  then show ?case by (simp add: geometry_frame_refl)
next
  case (Cons k ks)
  let ?D = "{x. (self, x) \<in> (child_rel h)\<^sup>+}"
  from Cons.prems(1) obtain h1 t1 where s1: "set_position_with upd k (cur, sx) h = Some (h1, t1)"
    by (auto split: option.splits)
  from Cons.prems(1) s1 obtain h2 t2 where s2: "set_size_with upd k (hp, cw) h1 = Some (h2, t2)"
    by (auto split: option.splits)
  from Cons.prems(1) s1 s2 have rest:
    "layout_vertical upd self ks sx cw hp (cur + hp + layout_spacing (h2 self)) (h2, t @ t1 @ t2) = Some (h', t')"
    by simp
  from Cons.prems(2) have k: "k \<in> set (children (h self))" and ks: "set ks \<subseteq> set (children (h self))"
    by simp_all
  have f1: "geometry_frame ?D h h1"
    by (rule geometry_frame_mono [OF setters_below(1) [OF upd s1] below_child [where k = k and h = h and r = self, OF k]])
  have r1: "child_rel h1 = child_rel h" by (rule geometry_frame_child_rel [OF f1])
  have c1: "children (h1 self) = children (h self)" by (rule geometry_frame_fields(1) [OF f1])
  have k1: "k \<in> set (children (h1 self))" using k c1 by simp
  have "geometry_frame {x. (self, x) \<in> (child_rel h1)\<^sup>+} h1 h2"
    by (rule geometry_frame_mono [OF setters_below(2) [OF upd s2]
          below_child [where k = k and h = h1 and r = self, OF k1]])
  then have f2: "geometry_frame ?D h1 h2" by (simp only: r1)
  have r2: "child_rel h2 = child_rel h" using geometry_frame_child_rel [OF f2] r1 by simp
  have c2: "children (h2 self) = children (h self)" using geometry_frame_fields(1) [OF f2] c1 by simp
  have ks2: "set ks \<subseteq> set (children (h2 self))" using ks c2 by simp
  have "geometry_frame {x. (self, x) \<in> (child_rel h2)\<^sup>+} h2 h'"
    by (rule Cons.IH [OF rest ks2])
  then have f3: "geometry_frame ?D h2 h'" by (simp only: r2)
  show ?case by (rule geometry_frame_trans [OF geometry_frame_trans [OF f1 f2] f3])
qed

lemma layout_horizontal_frame:
  assumes upd: "\<And>k g g' t. upd k g = Some (g', t) \<Longrightarrow> geometry_frame {x. (k, x) \<in> (child_rel g)\<^sup>+} g g'"
  shows "layout_horizontal upd self ks sy ch wp cur (h, t) = Some (h', t') \<Longrightarrow>
         set ks \<subseteq> set (children (h self)) \<Longrightarrow>
         geometry_frame {x. (self, x) \<in> (child_rel h)\<^sup>+} h h'"
proof (induction ks arbitrary: h t cur)
  case Nil
  then show ?case by (simp add: geometry_frame_refl)
next
  case (Cons k ks)
  let ?D = "{x. (self, x) \<in> (child_rel h)\<^sup>+}"
  from Cons.prems(1) obtain h1 t1 where s1: "set_position_with upd k (sy, cur) h = Some (h1, t1)"
    by (auto split: option.splits)
  from Cons.prems(1) s1 obtain h2 t2 where s2: "set_size_with upd k (ch, wp) h1 = Some (h2, t2)"
    by (auto split: option.splits)
  from Cons.prems(1) s1 s2 have rest:
    "layout_horizontal upd self ks sy ch wp (cur + wp + layout_spacing (h2 self)) (h2, t @ t1 @ t2) = Some (h', t')"
    by simp
  from Cons.prems(2) have k: "k \<in> set (children (h self))" and ks: "set ks \<subseteq> set (children (h self))"
    by simp_all
  have f1: "geometry_frame ?D h h1"
    by (rule geometry_frame_mono [OF setters_below(1) [OF upd s1] below_child [where k = k and h = h and r = self, OF k]])
  have r1: "child_rel h1 = child_rel h" by (rule geometry_frame_child_rel [OF f1])
  have c1: "children (h1 self) = children (h self)" by (rule geometry_frame_fields(1) [OF f1])
  have k1: "k \<in> set (children (h1 self))" using k c1 by simp
  have "geometry_frame {x. (self, x) \<in> (child_rel h1)\<^sup>+} h1 h2"
    by (rule geometry_frame_mono [OF setters_below(2) [OF upd s2]
          below_child [where k = k and h = h1 and r = self, OF k1]])
  then have f2: "geometry_frame ?D h1 h2" by (simp only: r1)
  have r2: "child_rel h2 = child_rel h" using geometry_frame_child_rel [OF f2] r1 by simp
  have c2: "children (h2 self) = children (h self)" using geometry_frame_fields(1) [OF f2] c1 by simp
  have ks2: "set ks \<subseteq> set (children (h2 self))" using ks c2 by simp
  have "geometry_frame {x. (self, x) \<in> (child_rel h2)\<^sup>+} h2 h'"
    by (rule Cons.IH [OF rest ks2])
  then have f3: "geometry_frame ?D h2 h'" by (simp only: r2)
  show ?case by (rule geometry_frame_trans [OF geometry_frame_trans [OF f1 f2] f3])
qed

lemma calculate_layout_with_unfold:
  "calculate_layout_with upd self h =
     (if children (h self) = [] \<or> filter (\<lambda>child. is_visible (h child)) (children (h self)) = []
      then Some (h, [])
      else if layout_direction (h self) = ''vertical'' then
        layout_vertical upd self (filter (\<lambda>child. is_visible (h child)) (children (h self)))
          (snd (position (h self))) (snd (size_hw (h self)))
          (max 0 (fst (size_hw (h self))
                  - layout_spacing (h self)
                    * (int (length (filter (\<lambda>child. is_visible (h child)) (children (h self)))) - 1))
           div int (length (filter (\<lambda>child. is_visible (h child)) (children (h self)))))
          (fst (position (h self))) (h, [])
      else
        layout_horizontal upd self (filter (\<lambda>child. is_visible (h child)) (children (h self)))
          (fst (position (h self))) (fst (size_hw (h self)))
          (max 0 (snd (size_hw (h self))
                  - layout_spacing (h self)
                    * (int (length (filter (\<lambda>child. is_visible (h child)) (children (h self)))) - 1))
           div int (length (filter (\<lambda>child. is_visible (h child)) (children (h self)))))
          (snd (position (h self))) (h, []))"
  by (simp add: calculate_layout_with_def Let_def split: prod.splits)

lemma calculate_layout_with_frame:
  assumes upd: "\<And>k g g' t. upd k g = Some (g', t) \<Longrightarrow> geometry_frame {x. (k, x) \<in> (child_rel g)\<^sup>+} g g'"
    and c: "calculate_layout_with upd self h = Some (h', t)"
  shows "geometry_frame {x. (self, x) \<in> (child_rel h)\<^sup>+} h h'"
proof -
  let ?vs = "filter (\<lambda>child. is_visible (h child)) (children (h self))"
  have sub: "set ?vs \<subseteq> set (children (h self))" by auto
  note u = c [unfolded calculate_layout_with_unfold]
  show ?thesis
  proof (cases "children (h self) = [] \<or> ?vs = []")
    case True
    with u have "h' = h" by (simp split: if_splits)
    then show ?thesis by (simp add: geometry_frame_refl)
  next
    case False
    note nonempty = this
    show ?thesis
    proof (cases "layout_direction (h self) = ''vertical''")
      case True
      with u nonempty obtain sx cw hp sy where
        "layout_vertical upd self ?vs sx cw hp sy (h, []) = Some (h', t)"
        by (simp split: if_splits)
      from layout_vertical_frame [OF upd this sub] show ?thesis .
    next
      case False
      with u nonempty obtain sy ch wp sx where
        "layout_horizontal upd self ?vs sy ch wp sx (h, []) = Some (h', t)"
        by (simp split: if_splits)
      from layout_horizontal_frame [OF upd this sub] show ?thesis .
    qed
  qed
qed

lemma update_frame:
  "update n r h = Some (h', t) \<Longrightarrow> geometry_frame {x. (r, x) \<in> (child_rel h)\<^sup>+} h h'"
proof (induction n arbitrary: r h h' t)
  case 0
  then show ?case by simp
next
  case (Suc n)
  let ?D = "{x. (r, x) \<in> (child_rel h)\<^sup>+}"
  from Suc.prems obtain h1 t1 where cu: "Component_update n r h = Some (h1, t1)"
    by (auto split: option.splits)
  have f1: "geometry_frame ?D h h1"
    by (rule geometry_frame_mono [OF Component_update_frame [OF cu]]) simp
  have r1: "child_rel h1 = child_rel h" by (rule geometry_frame_child_rel [OF f1])
  show ?case
  proof (cases "cls (h r)")
    case ComponentCls
    with Suc.prems cu have "h' = h1" by simp
    with f1 show ?thesis by simp
  next
    case ContainerCls
    with Suc.prems cu obtain t2 where
      cl: "calculate_layout_with (\<lambda>child. update n child) r h1 = Some (h', t2)"
      by (auto split: option.splits)
    have "geometry_frame {x. (r, x) \<in> (child_rel h1)\<^sup>+} h1 h'"
      by (rule calculate_layout_with_frame [OF _ cl]) (rule Suc.IH)
    then have "geometry_frame ?D h1 h'" by (simp only: r1)
    with f1 show ?thesis by (rule geometry_frame_trans)
  qed
qed

lemma set_position_effect:
  assumes s: "set_position n k v h = Some (h', t)"
  shows "(k, k) \<notin> (child_rel h)\<^sup>+ \<Longrightarrow> position (h' k) = v \<and> size_hw (h' k) = size_hw (h k)"
    and "x \<noteq> k \<Longrightarrow> (k, x) \<notin> (child_rel h)\<^sup>+ \<Longrightarrow>
           position (h' x) = position (h x) \<and> size_hw (h' x) = size_hw (h x)"
    and "geometry_frame (insert k {x. (k, x) \<in> (child_rel h)\<^sup>+}) h h'"
proof -
  have s': "set_position_with (update n) k v h = Some (h', t)"
    using s by (simp add: set_position_def)
  have f: "geometry_frame {x. (k, x) \<in> (child_rel h)\<^sup>+} (h(k := (h k)\<lparr> position := v \<rparr>)) h'"
    by (rule set_position_with_frame [OF update_frame s'])
  show g: "geometry_frame (insert k {x. (k, x) \<in> (child_rel h)\<^sup>+}) h h'"
    by (rule setters_below(1) [OF update_frame s'])
  show "position (h' k) = v \<and> size_hw (h' k) = size_hw (h k)" if "(k, k) \<notin> (child_rel h)\<^sup>+"
    using geometry_frameD(2,3) [OF f, of k] that by simp
  show "position (h' x) = position (h x) \<and> size_hw (h' x) = size_hw (h x)"
    if "x \<noteq> k" "(k, x) \<notin> (child_rel h)\<^sup>+"
    using geometry_frameD(2,3) [OF g, of x] that by simp
qed

lemma set_size_effect:
  assumes s: "set_size n k v h = Some (h', t)"
  shows "(k, k) \<notin> (child_rel h)\<^sup>+ \<Longrightarrow> size_hw (h' k) = v \<and> position (h' k) = position (h k)"
    and "x \<noteq> k \<Longrightarrow> (k, x) \<notin> (child_rel h)\<^sup>+ \<Longrightarrow>
           position (h' x) = position (h x) \<and> size_hw (h' x) = size_hw (h x)"
    and "geometry_frame (insert k {x. (k, x) \<in> (child_rel h)\<^sup>+}) h h'"
proof -
  have s': "set_size_with (update n) k v h = Some (h', t)"
    using s by (simp add: set_size_def)
  have f: "geometry_frame {x. (k, x) \<in> (child_rel h)\<^sup>+} (h(k := (h k)\<lparr> size_hw := v \<rparr>)) h'"
    by (rule set_size_with_frame [OF update_frame s'])
  show g: "geometry_frame (insert k {x. (k, x) \<in> (child_rel h)\<^sup>+}) h h'"
    by (rule setters_below(2) [OF update_frame s'])
  show "size_hw (h' k) = v \<and> position (h' k) = position (h k)" if "(k, k) \<notin> (child_rel h)\<^sup>+"
    using geometry_frameD(2,3) [OF f, of k] that by simp
  show "position (h' x) = position (h x) \<and> size_hw (h' x) = size_hw (h x)"
    if "x \<noteq> k" "(k, x) \<notin> (child_rel h)\<^sup>+"
    using geometry_frameD(2,3) [OF g, of x] that by simp
qed

lemma vertical_layout_result:
  assumes dir: "layout_direction (h c) = ''vertical''"
    and pos: "position (h c) = (0, 0)" and sz: "size_hw (h c) = (100, 200)"
    and sp: "layout_spacing (h c) = sp" and spv: "sp = 0 \<or> sp = 10"
    and vis: "filter (\<lambda>k. is_visible (h k)) (children (h c)) = [a, b]"
    and ab: "a \<noteq> b"
    and da: "get_all_descendants m h a = Some da" "a \<notin> set da"
    and db: "get_all_descendants m' h b = Some db" "a \<notin> set db" "b \<notin> set db"
    and run: "calculate_layout n c h = Some (h', t)"
  shows "position (h' a) = (0, 0) \<and> size_hw (h' a) = (if sp = 0 then 50 else 45, 200)
       \<and> position (h' b) = (if sp = 0 then 50 else 55, 0)
       \<and> size_hw (h' b) = (if sp = 0 then 50 else 45, 200)"
proof -
  let ?R = "child_rel h"
  define hp :: int where "hp = (if sp = 0 then 50 else 45)"
  have naa: "(a, a) \<notin> ?R\<^sup>+" using descendants_set [OF da(1)] da(2) by auto
  have nba: "(b, a) \<notin> ?R\<^sup>+" using descendants_set [OF db(1)] db(2) by auto
  have nbb: "(b, b) \<notin> ?R\<^sup>+" using descendants_set [OF db(1)] db(3) by auto
  have ne: "children (h c) \<noteq> []" using vis by auto
  have hpv: "max 0 (100 - sp * (int (length [a, b]) - 1)) div int (length [a, b]) = hp"
    using spv by (auto simp: hp_def)
  from run have "layout_vertical (update n) c [a, b] 0 200 hp 0 (h, []) = Some (h', t)"
    unfolding calculate_layout_def calculate_layout_with_unfold
    by (simp only: vis ne dir pos sz sp hpv fst_conv snd_conv if_False if_True simp_thms list.simps)
  then obtain h1 t1 h2 t2 h3 t3 t4 where
    s1: "set_position n a (0, 0) h = Some (h1, t1)"
    and s2: "set_size n a (hp, 200) h1 = Some (h2, t2)"
    and s3: "set_position n b (0 + hp + layout_spacing (h2 c), 0) h2 = Some (h3, t3)"
    and s4: "set_size n b (hp, 200) h3 = Some (h', t4)"
    by (auto simp: set_position_def set_size_def split: option.splits)
  have r1: "child_rel h1 = ?R" by (rule geometry_frame_child_rel [OF set_position_effect(3) [OF s1]])
  have r2: "child_rel h2 = ?R" using geometry_frame_child_rel [OF set_size_effect(3) [OF s2]] r1 by simp
  have r3: "child_rel h3 = ?R" using geometry_frame_child_rel [OF set_position_effect(3) [OF s3]] r2 by simp
  have l2: "layout_spacing (h2 c) = sp"
    using geometry_frame_fields(6) [OF set_position_effect(3) [OF s1], of c]
      geometry_frame_fields(6) [OF set_size_effect(3) [OF s2], of c] sp by simp
  have a1: "position (h1 a) = (0, 0)"
    using set_position_effect(1) [OF s1] naa by simp
  have a2: "position (h2 a) = (0, 0)" "size_hw (h2 a) = (hp, 200)"
    using set_size_effect(1) [OF s2] naa a1 by (simp_all add: r1)
  have a3: "position (h3 a) = (0, 0)" "size_hw (h3 a) = (hp, 200)"
    using set_position_effect(2) [OF s3, of a] ab nba a2 by (simp_all add: r2)
  have a4: "position (h' a) = (0, 0)" "size_hw (h' a) = (hp, 200)"
    using set_size_effect(2) [OF s4, of a] ab nba a3 by (simp_all add: r3)
  have b3: "position (h3 b) = (hp + sp, 0)"
    using set_position_effect(1) [OF s3] nbb by (simp add: r2 l2)
  have b4: "position (h' b) = (hp + sp, 0)" "size_hw (h' b) = (hp, 200)"
    using set_size_effect(1) [OF s4] nbb b3 by (simp_all add: r3)
  from a4 b4 spv show ?thesis by (auto simp: hp_def)
qed

subsection \<open>Enough fuel for the layout\<close>

lemma setters_total:
  assumes upd: "\<And>g. (\<And>x. children (g x) = children (h x)) \<Longrightarrow> \<exists>g' t. upd k g = Some (g', t)"
    and same: "\<And>x. children (g x) = children (h x)"
  shows "\<exists>g' t. set_position_with upd k v g = Some (g', t)"
    and "\<exists>g' t. set_size_with upd k v g = Some (g', t)"
proof -
  have "\<exists>g' t. upd k (g(k := (g k)\<lparr> position := v \<rparr>)) = Some (g', t)"
    by (rule upd) (simp add: same)
  then show "\<exists>g' t. set_position_with upd k v g = Some (g', t)"
    by (auto simp: set_position_with_def Let_def)
  have "\<exists>g' t. upd k (g(k := (g k)\<lparr> size_hw := v \<rparr>)) = Some (g', t)"
    by (rule upd) (simp add: same)
  then show "\<exists>g' t. set_size_with upd k v g = Some (g', t)"
    by (auto simp: set_size_with_def Let_def)
qed

lemma layout_vertical_total:
  assumes fr: "\<And>k g g' t. upd k g = Some (g', t) \<Longrightarrow> geometry_frame {x. (k, x) \<in> (child_rel g)\<^sup>+} g g'"
    and upd: "\<And>k g. k \<in> set ks \<Longrightarrow> (\<And>x. children (g x) = children (h x)) \<Longrightarrow> \<exists>g' t. upd k g = Some (g', t)"
  shows "(\<And>x. children (g x) = children (h x)) \<Longrightarrow>
         \<exists>g' t'. layout_vertical upd self ks sx cw hp cur (g, t) = Some (g', t')"
  using upd
proof (induction ks arbitrary: g t cur)
  case Nil
  show ?case by simp
next
  case (Cons k ks)
  have uk: "\<And>g. (\<And>x. children (g x) = children (h x)) \<Longrightarrow> \<exists>g' t. upd k g = Some (g', t)"
    by (rule Cons.prems(2)) simp_all
  from setters_total(1) [of h upd k g, OF uk Cons.prems(1)] obtain g1 t1
    where s1: "set_position_with upd k (cur, sx) g = Some (g1, t1)" by blast
  have c1: "children (g1 x) = children (h x)" for x
    using geometry_frame_fields(1) [OF setters_below(1) [OF fr s1]] Cons.prems(1) by simp
  from setters_total(2) [of h upd k g1, OF uk c1] obtain g2 t2
    where s2: "set_size_with upd k (hp, cw) g1 = Some (g2, t2)" by blast
  have c2: "children (g2 x) = children (h x)" for x
    using geometry_frame_fields(1) [OF setters_below(2) [OF fr s2]] c1 by simp
  have "\<exists>g' t'. layout_vertical upd self ks sx cw hp (cur + hp + layout_spacing (g2 self))
           (g2, t @ t1 @ t2) = Some (g', t')"
    by (rule Cons.IH [OF c2]) (rule Cons.prems(2), simp_all)
  with s1 s2 show ?case by simp
qed

lemma layout_horizontal_total:
  assumes fr: "\<And>k g g' t. upd k g = Some (g', t) \<Longrightarrow> geometry_frame {x. (k, x) \<in> (child_rel g)\<^sup>+} g g'"
    and upd: "\<And>k g. k \<in> set ks \<Longrightarrow> (\<And>x. children (g x) = children (h x)) \<Longrightarrow> \<exists>g' t. upd k g = Some (g', t)"
  shows "(\<And>x. children (g x) = children (h x)) \<Longrightarrow>
         \<exists>g' t'. layout_horizontal upd self ks sy ch wp cur (g, t) = Some (g', t')"
  using upd
proof (induction ks arbitrary: g t cur)
  case Nil
  show ?case by simp
next
  case (Cons k ks)
  have uk: "\<And>g. (\<And>x. children (g x) = children (h x)) \<Longrightarrow> \<exists>g' t. upd k g = Some (g', t)"
    by (rule Cons.prems(2)) simp_all
  from setters_total(1) [of h upd k g, OF uk Cons.prems(1)] obtain g1 t1
    where s1: "set_position_with upd k (sy, cur) g = Some (g1, t1)" by blast
  have c1: "children (g1 x) = children (h x)" for x
    using geometry_frame_fields(1) [OF setters_below(1) [OF fr s1]] Cons.prems(1) by simp
  from setters_total(2) [of h upd k g1, OF uk c1] obtain g2 t2
    where s2: "set_size_with upd k (ch, wp) g1 = Some (g2, t2)" by blast
  have c2: "children (g2 x) = children (h x)" for x
    using geometry_frame_fields(1) [OF setters_below(2) [OF fr s2]] c1 by simp
  have "\<exists>g' t'. layout_horizontal upd self ks sy ch wp (cur + wp + layout_spacing (g2 self))
           (g2, t @ t1 @ t2) = Some (g', t')"
    by (rule Cons.IH [OF c2]) (rule Cons.prems(2), simp_all)
  with s1 s2 show ?case by simp
qed

lemma calculate_layout_with_total:
  assumes fr: "\<And>k g g' t. upd k g = Some (g', t) \<Longrightarrow> geometry_frame {x. (k, x) \<in> (child_rel g)\<^sup>+} g g'"
    and upd: "\<And>k g. k \<in> set (children (h self)) \<Longrightarrow> (\<And>x. children (g x) = children (h x)) \<Longrightarrow>
                \<exists>g' t. upd k g = Some (g', t)"
  shows "\<exists>h' t. calculate_layout_with upd self h = Some (h', t)"
proof -
  have u: "\<And>k g. k \<in> set (filter (\<lambda>child. is_visible (h child)) (children (h self))) \<Longrightarrow>
            (\<And>x. children (g x) = children (h x)) \<Longrightarrow> \<exists>g' t. upd k g = Some (g', t)"
    by (rule upd) simp_all
  have v: "\<exists>g' t'. layout_vertical upd self
      (filter (\<lambda>child. is_visible (h child)) (children (h self))) sx cw hp cur (h, []) = Some (g', t')"
    for sx cw hp cur
    by (rule layout_vertical_total [where h = h, OF fr u]) simp_all
  have z: "\<exists>g' t'. layout_horizontal upd self
      (filter (\<lambda>child. is_visible (h child)) (children (h self))) sy ch wp cur (h, []) = Some (g', t')"
    for sy ch wp cur
    by (rule layout_horizontal_total [where h = h, OF fr u]) simp_all
  show ?thesis
  proof (cases "children (h self) = []
      \<or> filter (\<lambda>child. is_visible (h child)) (children (h self)) = []")
    case True
    then show ?thesis unfolding calculate_layout_with_unfold by simp
  next
    case False
    show ?thesis
    proof (cases "layout_direction (h self) = ''vertical''")
      case True
      with False v show ?thesis unfolding calculate_layout_with_unfold by simp
    next
      case dir: False
      with False z show ?thesis unfolding calculate_layout_with_unfold by simp
    qed
  qed
qed

lemma update_total:
  "get_all_descendants m h r = Some ds \<Longrightarrow> \<exists>h' t. update (Suc m) r h = Some (h', t)"
proof (induction m arbitrary: r h ds)
  case 0
  then show ?case by simp
next
  case (Suc m)
  have cu: "\<exists>h1 t1. Component_update (Suc m) r h = Some (h1, t1)"
  proof (cases "is_mounted (h r)")
    case False
    then show ?thesis by (simp add: Component_update_def)
  next
    case True
    let ?h1 = "h(r := (h r)\<lparr> lifecycle_state := UPDATED \<rparr>)"
    have "get_all_descendants (Suc m) ?h1 r = get_all_descendants (Suc m) h r"
      by (rule get_all_descendants_cong) simp
    with Suc.prems have "get_all_descendants (Suc m) ?h1 r = Some ds" by simp
    from render_total [OF this] obtain t where "render (Suc m) ?h1 r = Some t" by blast
    with True show ?thesis by (simp add: Component_update_def Let_def)
  qed
  then obtain h1 t1 where h1: "Component_update (Suc m) r h = Some (h1, t1)" by blast
  have c1: "children (h1 x) = children (h x)" for x
    by (rule geometry_frame_fields(1) [OF Component_update_frame [OF h1]])
  show ?case
  proof (cases "cls (h r)")
    case ComponentCls
    with h1 show ?thesis by simp
  next
    case ContainerCls
    have "\<exists>h' t. calculate_layout_with (\<lambda>child. update (Suc m) child) r h1 = Some (h', t)"
    proof (rule calculate_layout_with_total)
      show "\<And>k g g' t. update (Suc m) k g = Some (g', t) \<Longrightarrow>
              geometry_frame {x. (k, x) \<in> (child_rel g)\<^sup>+} g g'"
        by (rule update_frame)
    next
      fix k and g :: heap
      assume k: "k \<in> set (children (h1 r))" and same: "\<And>x. children (g x) = children (h1 x)"
      from k have "k \<in> set (children (h r))" by (simp add: c1)
      from children_have_descendants [OF Suc.prems this] obtain dk
        where dk: "get_all_descendants m h k = Some dk" by blast
      have "get_all_descendants m g k = get_all_descendants m h k"
        by (rule get_all_descendants_cong) (simp add: same c1)
      with dk have "get_all_descendants m g k = Some dk" by simp
      then show "\<exists>g' t. update (Suc m) k g = Some (g', t)" by (rule Suc.IH)
    qed
    with h1 ContainerCls show ?thesis by auto
  qed
qed

lemma calculate_layout_total:
  assumes "get_all_descendants m h c = Some dc"
  shows "\<exists>h' t. calculate_layout m c h = Some (h', t)"
proof (cases m)
  case 0
  with assms show ?thesis by simp
next
  case (Suc j)
  show ?thesis
    unfolding calculate_layout_def Suc
  proof (rule calculate_layout_with_total)
    show "\<And>k g g' t. update (Suc j) k g = Some (g', t) \<Longrightarrow>
            geometry_frame {x. (k, x) \<in> (child_rel g)\<^sup>+} g g'"
      by (rule update_frame)
  next
    fix k and g :: heap
    assume k: "k \<in> set (children (h c))" and same: "\<And>x. children (g x) = children (h x)"
    from children_have_descendants [OF assms [unfolded Suc] k] obtain dk
      where dk: "get_all_descendants j h k = Some dk" by blast
    have "get_all_descendants j g k = get_all_descendants j h k"
      by (rule get_all_descendants_cong) (simp add: same)
    with dk have "get_all_descendants j g k = Some dk" by simp
    then show "\<exists>g' t. update (Suc j) k g = Some (g', t)" by (rule update_total)
  qed
qed

text \<open>
  Claim C3. A vertical container at (0, 0) with size (100, 200) has exactly two visible
  children \<open>a\<close> and \<open>b\<close>, two different components in insertion order, placed as in a tree:
  neither lies below itself, and \<open>a\<close> does not lie below \<open>b\<close>. Then
  \<^verbatim>\<open>calculate_layout\<close> returns (with the fuel that \<^verbatim>\<open>_get_all_descendants\<close>
  needs on the container), and whenever it returns, with spacing 0 the children are at (0, 0) and
  (50, 0) with size (50, 200) each, and with spacing 10 they are at (0, 0) and (55, 0) with
  size (45, 200) each. Invisible children, mounted children and children that are containers
  with children of their own are all allowed.
\<close>

theorem vertical_layout_of_two_children:
  assumes "layout_direction (h c) = ''vertical''"
    and "position (h c) = (0, 0)" and "size_hw (h c) = (100, 200)"
    and "layout_spacing (h c) = sp" and "sp = 0 \<or> sp = 10"
    and "filter (\<lambda>k. is_visible (h k)) (children (h c)) = [a, b]"
    and "a \<noteq> b"
    and "get_all_descendants m h c = Some dc"
    and "get_all_descendants ma h a = Some da" "a \<notin> set da"
    and "get_all_descendants mb h b = Some db" "a \<notin> set db" "b \<notin> set db"
  shows "(\<exists>h' t. calculate_layout m c h = Some (h', t))
       \<and> (\<forall>n h' t. calculate_layout n c h = Some (h', t) \<longrightarrow>
            position (h' a) = (0, 0) \<and> size_hw (h' a) = (if sp = 0 then 50 else 45, 200)
            \<and> position (h' b) = (if sp = 0 then 50 else 55, 0)
            \<and> size_hw (h' b) = (if sp = 0 then 50 else 45, 200))"
proof (intro conjI allI impI)
  show "\<exists>h' t. calculate_layout m c h = Some (h', t)"
    by (rule calculate_layout_total [OF assms(8)])
next
  fix n h' t
  assume run: "calculate_layout n c h = Some (h', t)"
  from vertical_layout_result [OF assms(1-7) assms(9-13) run]
  show "position (h' a) = (0, 0)"
    "size_hw (h' a) = (if sp = 0 then 50 else 45, 200)"
    "position (h' b) = (if sp = 0 then 50 else 55, 0)"
    "size_hw (h' b) = (if sp = 0 then 50 else 45, 200)"
    by simp_all
qed

text \<open>
  The column and the spaced column: the mounted child 1 is updated twice while it is placed,
  the invisible child 2 takes no room, and the two visible children get 50 and 45 rows.
\<close>

theorem vertical_layout_of_two_children_witness:
  "filter (\<lambda>k. is_visible (column k)) (children (column 0)) = [1, 3]
   \<and> get_all_descendants 3 column 0 = Some [1, 2, 3]
   \<and> get_all_descendants 1 column 1 = Some [] \<and> get_all_descendants 1 column 3 = Some []
   \<and> map_option snd (calculate_layout 3 0 column)
       = Some [Emit 1 UPDATE, Emit 1 RENDER, Emit 1 UPDATE, Emit 1 RENDER]
   \<and> position (column_laid_out 1) = (0, 0) \<and> size_hw (column_laid_out 1) = (50, 200)
   \<and> position (column_laid_out 3) = (50, 0) \<and> size_hw (column_laid_out 3) = (50, 200)
   \<and> layout_spacing (spaced_column 0) = 10
   \<and> position (spaced_column_laid_out 1) = (0, 0) \<and> size_hw (spaced_column_laid_out 1) = (45, 200)
   \<and> position (spaced_column_laid_out 3) = (55, 0) \<and> size_hw (spaced_column_laid_out 3) = (45, 200)"
proof -
  have three: "(3::nat) = Suc (Suc (Suc 0))" by simp
  note defs = column_def spaced_column_def fresh_heap_def Component_init_def Container_init_def
  note run_defs = calculate_layout_def calculate_layout_with_def set_position_with_def
    set_size_with_def Component_update_def Let_def UPDATE_def RENDER_def
  have c: "layout_direction (column 0) = ''vertical''" "position (column 0) = (0, 0)"
    "size_hw (column 0) = (100, 200)" "layout_spacing (column 0) = 0"
    "filter (\<lambda>k. is_visible (column k)) (children (column 0)) = [1, 3]"
    "get_all_descendants 1 column 1 = Some []" "get_all_descendants 1 column 3 = Some []"
    by (simp_all add: defs)
  have s: "layout_direction (spaced_column 0) = ''vertical''" "position (spaced_column 0) = (0, 0)"
    "size_hw (spaced_column 0) = (100, 200)" "layout_spacing (spaced_column 0) = 10"
    "filter (\<lambda>k. is_visible (spaced_column k)) (children (spaced_column 0)) = [1, 3]"
    "get_all_descendants 1 spaced_column 1 = Some []" "get_all_descendants 1 spaced_column 3 = Some []"
    by (simp_all add: defs)
  have e: "map_option snd (calculate_layout 3 0 column)
       = Some [Emit 1 UPDATE, Emit 1 RENDER, Emit 1 UPDATE, Emit 1 RENDER]"
    by (simp add: three defs run_defs)
  have rc: "calculate_layout 3 0 column = Some (column_laid_out, snd (the (calculate_layout 3 0 column)))"
    unfolding column_laid_out_def by (simp add: three defs run_defs)
  have rs: "calculate_layout 3 0 spaced_column
      = Some (spaced_column_laid_out, snd (the (calculate_layout 3 0 spaced_column)))"
    unfolding spaced_column_laid_out_def by (simp add: three defs run_defs)
  have ne: "(1::nat) \<noteq> 3" by simp
  have dc: "get_all_descendants 3 column 0 = Some [1, 2, 3]"
    "get_all_descendants 3 spaced_column 0 = Some [1, 2, 3]"
    by (simp_all add: three defs)
  from vertical_layout_of_two_children [OF c(1,2,3,4) _ c(5) ne dc(1) c(6) _ c(7)]
  have t1: "\<forall>n h' t. calculate_layout n 0 column = Some (h', t) \<longrightarrow>
      position (h' 1) = (0, 0) \<and> size_hw (h' 1) = (50, 200)
      \<and> position (h' 3) = (50, 0) \<and> size_hw (h' 3) = (50, 200)"
    by simp
  from vertical_layout_of_two_children [OF s(1,2,3,4) _ s(5) ne dc(2) s(6) _ s(7)]
  have t2: "\<forall>n h' t. calculate_layout n 0 spaced_column = Some (h', t) \<longrightarrow>
      position (h' 1) = (0, 0) \<and> size_hw (h' 1) = (45, 200)
      \<and> position (h' 3) = (55, 0) \<and> size_hw (h' 3) = (45, 200)"
    by simp
  from t1 rc have u1: "position (column_laid_out 1) = (0, 0) \<and> size_hw (column_laid_out 1) = (50, 200)
      \<and> position (column_laid_out 3) = (50, 0) \<and> size_hw (column_laid_out 3) = (50, 200)"
    by blast
  from t2 rs have u2: "position (spaced_column_laid_out 1) = (0, 0)
      \<and> size_hw (spaced_column_laid_out 1) = (45, 200)
      \<and> position (spaced_column_laid_out 3) = (55, 0)
      \<and> size_hw (spaced_column_laid_out 3) = (45, 200)"
    by blast
  from u1 u2 c s e dc show ?thesis by simp
qed

section \<open>Rejected insertions\<close>

lemma first_found_total:
  "(\<And>k. k \<in> set ks \<Longrightarrow> \<exists>res. f k = Some res) \<Longrightarrow> \<exists>res. first_found f ks = Some res"
proof (induction ks)
  case Nil
  show ?case by simp
next
  case (Cons k ks)
  from Cons.prems [of k] obtain res where r: "f k = Some res" by auto
  have "\<exists>res. first_found f ks = Some res"
    by (rule Cons.IH) (rule Cons.prems, simp)
  with r show ?case by (cases res) auto
qed

lemma find_by_id_total:
  "get_all_descendants n h r = Some ds \<Longrightarrow> \<exists>res. find_by_id n h r i = Some res"
proof (induction n arbitrary: r ds)
  case 0
  then show ?case by simp
next
  case (Suc n)
  have "\<exists>res. first_found (\<lambda>child. find_by_id n h child i) (children (h r)) = Some res"
  proof (rule first_found_total)
    fix k assume "k \<in> set (children (h r))"
    from children_have_descendants [OF Suc.prems this] obtain dk
      where "get_all_descendants n h k = Some dk" by blast
    then show "\<exists>res. find_by_id n h k i = Some res" by (rule Suc.IH)
  qed
  then show ?case by simp
qed

lemma first_found_Some:
  "first_found f ks = Some (Some y) \<Longrightarrow> \<exists>k\<in>set ks. f k = Some (Some y)"
  by (induction ks) (auto split: option.splits)

lemma find_by_id_Some:
  "find_by_id n h r i = Some (Some y) \<Longrightarrow> (r, y) \<in> (child_rel h)\<^sup>* \<and> comp_id (h y) = Some i"
proof (induction n arbitrary: r)
  case 0
  then show ?case by simp
next
  case (Suc n)
  show ?case
  proof (cases "comp_id (h r) = Some i")
    case True
    with Suc.prems show ?thesis by simp
  next
    case False
    with Suc.prems have "first_found (\<lambda>child. find_by_id n h child i) (children (h r)) = Some (Some y)"
      by simp
    from first_found_Some [OF this] obtain k where k: "k \<in> set (children (h r))"
      and f: "find_by_id n h k i = Some (Some y)" by blast
    from Suc.IH [OF f] have "(k, y) \<in> (child_rel h)\<^sup>*" and c: "comp_id (h y) = Some i" by simp_all
    moreover from k have "(r, k) \<in> child_rel h" by (simp add: child_rel_def)
    ultimately have "(r, y) \<in> (child_rel h)\<^sup>*" by (blast intro: converse_rtrancl_into_rtrancl)
    with c show ?thesis by simp
  qed
qed

lemma tree_members:
  assumes "get_all_descendants n h r = Some ds"
  shows "set (r # ds) = {x. (r, x) \<in> (child_rel h)\<^sup>*}"
  using descendants_set [OF assms] by (auto simp: rtrancl_eq_or_trancl)

lemma find_by_id_iff:
  assumes d: "get_all_descendants n h r = Some ds"
  shows "\<exists>res. find_by_id n h r i = Some res
           \<and> (res \<noteq> None \<longleftrightarrow> (\<exists>x\<in>set (r # ds). comp_id (h x) = Some i))"
proof -
  from find_by_id_total [OF d] obtain res where r: "find_by_id n h r i = Some res" by blast
  note m = tree_members [OF d]
  show ?thesis
  proof (cases res)
    case None
    have "comp_id (h x) \<noteq> Some i" if "x \<in> set (r # ds)" for x
    proof (rule find_by_id_None)
      show "find_by_id n h r i = Some None" using r None by simp
      show "(r, x) \<in> (child_rel h)\<^sup>*" using that m by blast
    qed
    then have "\<not> (\<exists>x\<in>set (r # ds). comp_id (h x) = Some i)" by blast
    with r None show ?thesis by simp
  next
    case (Some y)
    with r have "find_by_id n h r i = Some (Some y)" by simp
    from find_by_id_Some [OF this] have "(r, y) \<in> (child_rel h)\<^sup>*" "comp_id (h y) = Some i"
      by simp_all
    with m have "\<exists>x\<in>set (r # ds). comp_id (h x) = Some i" by blast
    with r Some show ?thesis by simp
  qed
qed

lemma id_in_tree_iff:
  assumes "root n h p = Some rt" "get_all_descendants n h rt = Some ds"
  shows "id_in_tree n h p i = Some (\<exists>x\<in>set (rt # ds). comp_id (h x) = Some i)"
proof -
  from find_by_id_iff [OF assms(2), of i] obtain res where r: "find_by_id n h rt i = Some res"
    and e: "res \<noteq> None \<longleftrightarrow> (\<exists>x\<in>set (rt # ds). comp_id (h x) = Some i)" by blast
  show ?thesis
    unfolding id_in_tree_def using assms(1) r e by simp
qed

lemma check_descendants_iff:
  assumes t: "\<And>i. id_in_tree n h p i = Some (T i)"
  shows "\<exists>r. check_descendants n h p dc = Some r
      \<and> (r \<noteq> None \<longleftrightarrow> (\<exists>d\<in>set dc. \<exists>i. comp_id (h d) = Some i \<and> T i))
      \<and> (\<forall>e. r = Some e \<longrightarrow> (\<exists>msg. e = ValueError msg))"
proof (induction dc)
  case Nil
  show ?case by simp
next
  case (Cons d dc)
  from Cons.IH obtain r where r: "check_descendants n h p dc = Some r"
    and e: "r \<noteq> None \<longleftrightarrow> (\<exists>d\<in>set dc. \<exists>i. comp_id (h d) = Some i \<and> T i)"
    and v: "\<forall>e. r = Some e \<longrightarrow> (\<exists>msg. e = ValueError msg)" by blast
  show ?case
  proof (cases "comp_id (h d)")
    case None
    with r e v show ?thesis by simp
  next
    case (Some i)
    show ?thesis
    proof (cases "T i")
      case True
      with Some t [of i] show ?thesis by auto
    next
      case False
      have "check_descendants n h p (d # dc) = Some r"
        using Some False t [of i] r by simp
      moreover have "(\<exists>d'\<in>set (d # dc). \<exists>i. comp_id (h d') = Some i \<and> T i)
          \<longleftrightarrow> (\<exists>d\<in>set dc. \<exists>i. comp_id (h d) = Some i \<and> T i)"
        using Some False by auto
      ultimately show ?thesis using e v by simp
    qed
  qed
qed

text \<open>
  Claim C6. Whenever \<^verbatim>\<open>add_child\<close> raises, the store after the call is the store before
  it (child lists, parent references and mounted flags of every component included), and no
  event was emitted. And \<^verbatim>\<open>add_child\<close> raises exactly on the collisions: when the child
  is not yet a child of \<open>self\<close> and the tree of \<open>self\<close> (the root \<open>rt\<close> that the parent
  references lead to, and its descendants \<open>ds\<close>) and the subtree of the child (with the
  descendants \<open>dc\<close>) are finite, the call returns with a \<^verbatim>\<open>ValueError\<close> and the store
  unchanged if a sibling has the name of the child or if the child or one of its descendants
  has the identifier of a member of the tree, and it raises nothing otherwise.
\<close>

theorem add_child_rejection_changes_nothing:
  "(add_child n self child h = Some (h', t, Some e) \<longrightarrow> h' = h \<and> t = [])
   \<and> (child \<notin> set (children (h self)) \<and> root n h self = Some rt
        \<and> get_all_descendants n h rt = Some ds \<and> get_all_descendants n h child = Some dc \<longrightarrow>
      (if name_collision h self child \<or> id_collision h (rt # ds) (child # dc)
       then \<exists>msg. add_child n self child h = Some (h, [], Some (ValueError msg))
       else \<forall>h2 t2 e2. add_child n self child h \<noteq> Some (h2, t2, Some e2)))"
proof (intro conjI impI)
  assume "add_child n self child h = Some (h', t, Some e)"
  then show "h' = h" "t = []"
    by (auto simp: add_child_def Let_def split: if_splits option.splits bool.splits)
next
  assume a: "child \<notin> set (children (h self)) \<and> root n h self = Some rt
        \<and> get_all_descendants n h rt = Some ds \<and> get_all_descendants n h child = Some dc"
  then have new: "child \<notin> set (children (h self))" and rt: "root n h self = Some rt"
    and ds: "get_all_descendants n h rt = Some ds" and dc: "get_all_descendants n h child = Some dc"
    by simp_all
  define T where "T i \<longleftrightarrow> (\<exists>x\<in>set (rt # ds). comp_id (h x) = Some i)" for i
  have it: "id_in_tree n h self i = Some (T i)" for i
    unfolding T_def by (rule id_in_tree_iff [OF rt ds])
  from check_descendants_iff [of n h self T dc, OF it] obtain r
    where r: "check_descendants n h self dc = Some r"
      and re: "r \<noteq> None \<longleftrightarrow> (\<exists>d\<in>set dc. \<exists>i. comp_id (h d) = Some i \<and> T i)"
      and rv: "\<forall>e. r = Some e \<longrightarrow> (\<exists>msg. e = ValueError msg)" by blast
  define N where "N \<longleftrightarrow> comp_name (h child) \<noteq> None
      \<and> list_ex (\<lambda>existing_child. comp_name (h existing_child) = comp_name (h child)) (children (h self))"
  define C where "C \<longleftrightarrow> (\<exists>i. comp_id (h child) = Some i \<and> T i)"
  have nc: "name_collision h self child \<longleftrightarrow> N"
    unfolding name_collision_def N_def list_ex_iff by blast
  have ic: "id_collision h (rt # ds) (child # dc) \<longleftrightarrow> C \<or> r \<noteq> None"
  proof -
    have "id_collision h (rt # ds) (child # dc)
        \<longleftrightarrow> (\<exists>d\<in>set (child # dc). \<exists>i. comp_id (h d) = Some i \<and> T i)"
      unfolding id_collision_def T_def by (metis option.exhaust option.distinct(1))
    also have "\<dots> \<longleftrightarrow> C \<or> (\<exists>d\<in>set dc. \<exists>i. comp_id (h d) = Some i \<and> T i)"
      unfolding C_def by auto
    finally show ?thesis using re by simp
  qed
  have idc: "(case comp_id (h child) of None \<Rightarrow> Some False | Some ident \<Rightarrow> id_in_tree n h self ident)
      = Some C"
    unfolding C_def by (cases "comp_id (h child)") (simp_all add: it)
  note u = add_child_unfold [of n self child h, unfolded idc, folded N_def]
  show "if name_collision h self child \<or> id_collision h (rt # ds) (child # dc)
     then \<exists>msg. add_child n self child h = Some (h, [], Some (ValueError msg))
     else \<forall>h2 t2 e2. add_child n self child h \<noteq> Some (h2, t2, Some e2)"
  proof (cases N)
    case True
    with new u have "add_child n self child h = Some (h, [], Some (ValueError (the (comp_name (h child)))))"
      by simp
    with True nc show ?thesis by simp
  next
    case notN: False
    show ?thesis
    proof (cases C)
      case True
      with new notN u have "add_child n self child h = Some (h, [], Some (ValueError (the (comp_id (h child)))))"
        by simp
      with True ic show ?thesis by simp
    next
      case notC: False
      show ?thesis
      proof (cases r)
        case (Some e)
        with rv obtain msg where "e = ValueError msg" by blast
        with new notN notC u dc r Some
        have "add_child n self child h = Some (h, [], Some (ValueError msg))" by simp
        with Some ic show ?thesis by simp
      next
        case None
        with new notN notC u dc r
        have "add_child n self child h \<noteq> Some (h2, t2, Some e2)" for h2 t2 e2
          by (simp split: option.splits)
        with None notN notC nc ic show ?thesis by simp
      qed
    qed
  qed
qed

text \<open>
  The three rejections on the family: a sibling with the same name, a child with an
  identifier of the tree, and a child with a descendant whose identifier is in the tree. The
  same child 4 is accepted by the component 2, whose tree has no identifier.
\<close>

theorem add_child_rejection_changes_nothing_witness:
  "root 3 family 0 = Some 0 \<and> get_all_descendants 3 family 0 = Some [1]
   \<and> get_all_descendants 3 family 2 = Some [] \<and> get_all_descendants 3 family 3 = Some []
   \<and> get_all_descendants 3 family 4 = Some [5]
   \<and> name_collision family 0 2 \<and> id_collision family [0, 1] [3] \<and> id_collision family [0, 1] [4, 5]
   \<and> add_child 3 0 2 family = Some (family, [], Some (ValueError ''x''))
   \<and> add_child 3 0 3 family = Some (family, [], Some (ValueError ''a''))
   \<and> add_child 3 0 4 family = Some (family, [], Some (ValueError ''a''))
   \<and> root 3 family 2 = Some 2
   \<and> \<not> name_collision family 2 4 \<and> \<not> id_collision family [2] [4, 5]
   \<and> map_option (\<lambda>r. snd (snd r)) (add_child 3 2 4 family) = Some None"
proof -
  have three: "(3::nat) = Suc (Suc (Suc 0))" by simp
  note defs = family_def fresh_heap_def Component_init_def
  have a: "add_child 3 0 2 family = Some (family, [], Some (ValueError ''x''))"
    by (simp add: three add_child_def defs)
  have b: "add_child 3 0 3 family = Some (family, [], Some (ValueError ''a''))"
    by (simp add: three add_child_def id_in_tree_def defs)
  have c: "add_child 3 0 4 family = Some (family, [], Some (ValueError ''a''))"
    by (simp add: three add_child_def id_in_tree_def defs)
  have d: "map_option (\<lambda>r. snd (snd r)) (add_child 3 2 4 family) = Some None"
    by (simp add: three add_child_def id_in_tree_def defs)
  have g: "root 3 family 0 = Some 0" "get_all_descendants 3 family 0 = Some [1]"
    "get_all_descendants 3 family 2 = Some []" "get_all_descendants 3 family 3 = Some []"
    "get_all_descendants 3 family 4 = Some [5]" "root 3 family 2 = Some 2"
    by (simp_all add: three defs)
  have k: "name_collision family 0 2" "id_collision family [0, 1] [3]"
    "id_collision family [0, 1] [4, 5]"
    "\<not> name_collision family 2 4" "\<not> id_collision family [2] [4, 5]"
    by (simp_all add: name_collision_def id_collision_def defs)
  have n: "2 \<notin> set (children (family 0))" "3 \<notin> set (children (family 0))"
    "4 \<notin> set (children (family 0))" "4 \<notin> set (children (family 2))"
    by (simp_all add: defs)
  note r = add_child_rejection_changes_nothing [THEN conjunct1, rule_format, OF a]
    add_child_rejection_changes_nothing [THEN conjunct1, rule_format, OF b]
    add_child_rejection_changes_nothing [THEN conjunct1, rule_format, OF c]
  have x: "\<exists>msg. add_child 3 0 2 family = Some (family, [], Some (ValueError msg))"
    using add_child_rejection_changes_nothing [where n = 3 and self = 0 and child = 2
        and h = family and rt = 0 and ds = "[1]" and dc = "[]", THEN conjunct2, rule_format] n g k by simp
  have y: "\<exists>msg. add_child 3 0 4 family = Some (family, [], Some (ValueError msg))"
    using add_child_rejection_changes_nothing [where n = 3 and self = 0 and child = 4
        and h = family and rt = 0 and ds = "[1]" and dc = "[5]", THEN conjunct2, rule_format] n g k by simp
  have z: "\<forall>h2 t2 e2. add_child 3 2 4 family \<noteq> Some (h2, t2, Some e2)"
    using add_child_rejection_changes_nothing [where n = 3 and self = 2 and child = 4
        and h = family and rt = 2 and ds = "[]" and dc = "[5]", THEN conjunct2, rule_format] n g k by simp
  from a b c d g k r x y z show ?thesis by simp
qed

end
